theory Spec2Isabelle
  imports Main
begin

section \<open>Errors\<close>

text \<open>
  Every exception the converter and the preference helpers can raise is a value.
  \<^item> \<open>FormatError\<close>: the \<open>ValueError\<close> of the two normalizers for a string that does not
    split into three tokens;
  \<^item> \<open>ParseError\<close>: the \<open>ValueError\<close> of Python's \<open>int(token)\<close> for a token that is not a
    decimal literal, or that has more than 4300 digits;
  \<^item> \<open>DigitLimitError\<close>: the \<open>ValueError\<close> of formatting an integer of more than 4300
    digits;
  \<^item> \<open>TypeError\<close>: a sequence that does not unpack into three items;
  \<^item> \<open>ValidationError\<close>: the \<open>ValueError\<close> of \<open>JalaliDate.__post_init__\<close>, of
    \<open>_require_calendar\<close> and of an unknown scope;
  \<^item> \<open>DateRangeError\<close>: the \<open>ValueError\<close> of Python's \<open>date(y, m, d)\<close> (an \<open>OverflowError\<close>
    for an argument beyond the machine integers);
  \<^item> \<open>IndexError\<close>: a read beyond the end of the Jalali month table;
  \<^item> \<open>InternalConsistencyError\<close>: the defensive \<open>ValueError\<close> after the Gregorian month loop;
  \<^item> \<open>IdentityError\<close>: a per-user write with no user (\<open>RuntimeError\<close> on the fallback
    store, \<open>ValueError\<close> for an anonymous session of the host).
\<close>

datatype error =
    FormatError
  | ParseError
  | DigitLimitError
  | TypeError
  | ValidationError
  | DateRangeError
  | IndexError
  | InternalConsistencyError
  | IdentityError

section \<open>The host's date type\<close>

text \<open>
  Python's \<open>datetime.date\<close>: a year in \<open>1..9999\<close>, a month and a day of that month.
  \<open>mk_date\<close> is the constructor \<open>date(y, m, d)\<close> with its range checks, \<open>toordinal\<close> the
  proleptic Gregorian ordinal (day 1 is 0001-01-01) that date subtraction is defined by,
  and \<open>date_less\<close> the comparison of the \<open>(year, month, day)\<close> tuples.
\<close>

datatype date = Date (date_year: int) (date_month: int) (date_day: int)

definition is_gregorian_leap :: "int \<Rightarrow> bool" where
  "is_gregorian_leap year \<longleftrightarrow> year mod 4 = 0 \<and> (year mod 100 \<noteq> 0 \<or> year mod 400 = 0)"

definition GREGORIAN_MONTH_LENGTHS :: "int list" where
  "GREGORIAN_MONTH_LENGTHS = [31, 28, 31, 30, 31, 30, 31, 31, 30, 31, 30, 31]"

definition JALALI_MONTH_LENGTHS :: "int list" where
  "JALALI_MONTH_LENGTHS = [31, 31, 31, 31, 31, 31, 30, 30, 30, 30, 30, 29]"

definition days_in_month :: "int \<Rightarrow> int \<Rightarrow> int" where
  "days_in_month y m =
     (if m = 2 \<and> is_gregorian_leap y then 29 else GREGORIAN_MONTH_LENGTHS ! nat (m - 1))"

definition days_before_year :: "int \<Rightarrow> int" where
  "days_before_year year =
     (let y = year - 1 in y * 365 + y div 4 - y div 100 + y div 400)"

definition days_before_month :: "int \<Rightarrow> int \<Rightarrow> int" where
  "days_before_month y m =
     sum_list (take (nat (m - 1)) GREGORIAN_MONTH_LENGTHS)
       + (if m > 2 \<and> is_gregorian_leap y then 1 else 0)"

definition valid_date :: "date \<Rightarrow> bool" where
  "valid_date d \<longleftrightarrow>
     1 \<le> date_year d \<and> date_year d \<le> 9999 \<and> 1 \<le> date_month d \<and> date_month d \<le> 12
       \<and> 1 \<le> date_day d \<and> date_day d \<le> days_in_month (date_year d) (date_month d)"

definition mk_date :: "int \<Rightarrow> int \<Rightarrow> int \<Rightarrow> error + date" where
  "mk_date y m d = (if valid_date (Date y m d) then Inr (Date y m d) else Inl DateRangeError)"

definition toordinal :: "date \<Rightarrow> int" where
  "toordinal d =
     days_before_year (date_year d) + days_before_month (date_year d) (date_month d) + date_day d"

definition date_less :: "date \<Rightarrow> date \<Rightarrow> bool" where
  "date_less a b \<longleftrightarrow>
     date_year a < date_year b
       \<or> (date_year a = date_year b
            \<and> (date_month a < date_month b
                 \<or> (date_month a = date_month b \<and> date_day a < date_day b)))"

definition days_between :: "date \<Rightarrow> date \<Rightarrow> int" where
  "days_between a b = toordinal a - toordinal b"

section \<open>Strings\<close>

text \<open>
  A string is a list of characters with codes below 256; a Python string with other code
  points is outside the model. \<open>is_space\<close> is \<open>str.isspace\<close> on these codes. \<open>replace_slash\<close> is
  \<open>value.replace("/", "-")\<close>, \<open>split_on\<close> is \<open>str.split(sep)\<close> for a one-character
  separator (it never returns an empty list), \<open>py_int\<close> is \<open>int(token)\<close> in base 10:
  surrounding whitespace, an optional sign, and digits that may be grouped by single
  underscores. The whitespace that \<open>int\<close> skips is narrower than \<open>str.isspace\<close>: the
  codes 28 to 31 are not skipped (\<open>is_int_space\<close>). A literal of more than
  \<open>INT_MAX_STR_DIGITS\<close> digits, the default of \<open>sys.int_max_str_digits\<close>, is refused with
  a \<open>ValueError\<close> as well; the sign and the underscores do not count.
\<close>

definition replace_slash :: "string \<Rightarrow> string" where
  "replace_slash s = map (\<lambda>c. if c = CHR ''/'' then CHR ''-'' else c) s"

fun split_on :: "char \<Rightarrow> string \<Rightarrow> string list" where
  "split_on sep [] = [[]]"
| "split_on sep (c # cs) =
     (if c = sep then [] # split_on sep cs
      else (case split_on sep cs of [] \<Rightarrow> [[c]] | t # ts \<Rightarrow> (c # t) # ts))"

definition is_space :: "char \<Rightarrow> bool" where
  "is_space c \<longleftrightarrow>
     (let n = of_char c :: nat in (9 \<le> n \<and> n \<le> 13) \<or> (28 \<le> n \<and> n \<le> 32) \<or> n = 133 \<or> n = 160)"

definition strip :: "string \<Rightarrow> string" where
  "strip s = rev (dropWhile is_space (rev (dropWhile is_space s)))"

definition is_digit :: "char \<Rightarrow> bool" where
  "is_digit c \<longleftrightarrow> (let n = of_char c :: nat in 48 \<le> n \<and> n \<le> 57)"

definition digit_val :: "char \<Rightarrow> int" where
  "digit_val c = int (of_char c) - 48"

fun parse_digits :: "bool \<Rightarrow> int \<Rightarrow> string \<Rightarrow> int option" where
  "parse_digits prev acc [] = (if prev then Some acc else None)"
| "parse_digits prev acc (c # cs) =
     (if is_digit c then parse_digits True (10 * acc + digit_val c) cs
      else if c = CHR ''_'' \<and> prev then parse_digits False acc cs
      else None)"

definition INT_MAX_STR_DIGITS :: nat where
  "INT_MAX_STR_DIGITS = 4300"

definition is_int_space :: "char \<Rightarrow> bool" where
  "is_int_space c \<longleftrightarrow>
     (let n = of_char c :: nat in (9 \<le> n \<and> n \<le> 13) \<or> n = 32 \<or> n = 133 \<or> n = 160)"

definition int_strip :: "string \<Rightarrow> string" where
  "int_strip s = rev (dropWhile is_int_space (rev (dropWhile is_int_space s)))"

definition py_int :: "string \<Rightarrow> error + int" where
  "py_int s =
     (case int_strip s of
        [] \<Rightarrow> Inl ParseError
      | c # cs \<Rightarrow>
          (let body = (if c = CHR ''-'' \<or> c = CHR ''+'' then cs else c # cs)
           in case parse_digits False 0 body of
                None \<Rightarrow> Inl ParseError
              | Some n \<Rightarrow>
                  if length (filter is_digit body) > INT_MAX_STR_DIGITS then Inl ParseError
                  else Inr (if c = CHR ''-'' then - n else n)))"

section \<open>The converter\<close>

record JalaliDate =
  year :: int
  month :: int
  day :: int

datatype jalali_value = JDate JalaliDate | JStr string | JSeq "int list"

datatype gregorian_value = GDatetime date | GDate date | GStr string | GSeq "int list"

text \<open>
  The string branch shared by \<open>coerce_gregorian\<close> and \<open>coerce_jalali\<close>: split, count the
  tokens, convert each with \<open>int\<close> from left to right.
\<close>

definition coerce_tokens :: "string \<Rightarrow> error + int \<times> int \<times> int" where
  "coerce_tokens s =
     (case split_on CHR ''-'' (replace_slash s) of
        [a, b, c] \<Rightarrow>
          (case py_int a of Inl e \<Rightarrow> Inl e | Inr y \<Rightarrow>
           (case py_int b of Inl e \<Rightarrow> Inl e | Inr m \<Rightarrow>
            (case py_int c of Inl e \<Rightarrow> Inl e | Inr d \<Rightarrow> Inr (y, m, d))))
      | _ \<Rightarrow> Inl FormatError)"

definition coerce_seq :: "int list \<Rightarrow> error + int \<times> int \<times> int" where
  "coerce_seq xs = (case xs of [y, m, d] \<Rightarrow> Inr (y, m, d) | _ \<Rightarrow> Inl TypeError)"

fun coerce_gregorian :: "gregorian_value \<Rightarrow> error + int \<times> int \<times> int" where
  "coerce_gregorian (GDatetime d) = Inr (date_year d, date_month d, date_day d)"
| "coerce_gregorian (GDate d) = Inr (date_year d, date_month d, date_day d)"
| "coerce_gregorian (GStr s) = coerce_tokens s"
| "coerce_gregorian (GSeq xs) = coerce_seq xs"

fun coerce_jalali :: "jalali_value \<Rightarrow> error + int \<times> int \<times> int" where
  "coerce_jalali (JDate j) = Inr (year j, month j, day j)"
| "coerce_jalali (JStr s) = coerce_tokens s"
| "coerce_jalali (JSeq xs) = coerce_seq xs"

text \<open>
  \<open>jalali_to_gregorian\<close>, in the order of the source. \<open>add_jalali_months k ls acc\<close> is the
  loop \<open>for i in range(jm): j_day_no += _JALALI_MONTH_LENGTHS[i]\<close>: no iteration for
  \<open>jm \<le> 0\<close>, an \<open>IndexError\<close> at \<open>i = 12\<close>.
\<close>

fun add_jalali_months :: "nat \<Rightarrow> int list \<Rightarrow> int \<Rightarrow> error + int" where
  "add_jalali_months 0 ls acc = Inr acc"
| "add_jalali_months (Suc k) [] acc = Inl IndexError"
| "add_jalali_months (Suc k) (l # ls) acc = add_jalali_months k ls (acc + l)"

definition jalali_day_no :: "int \<Rightarrow> int \<Rightarrow> int \<Rightarrow> error + int" where
  "jalali_day_no jy0 jm0 jd0 =
     (let jy = jy0 - 979; jm = jm0 - 1; jd = jd0 - 1;
          j_day_no = 365 * jy + jy div 33 * 8 + ((jy mod 33) + 3) div 4
      in case add_jalali_months (nat jm) JALALI_MONTH_LENGTHS j_day_no of
           Inl e \<Rightarrow> Inl e
         | Inr n \<Rightarrow> Inr (n + jd))"

text \<open>
  Lines 128 to 148: the day number is cut into the 400-year cycle, the century, the
  4-year group and the year; the result is the Gregorian year, the day within that year
  and the \<open>leap\<close> flag.
\<close>

definition gregorian_year_split :: "int \<Rightarrow> int \<times> int \<times> bool" where
  "gregorian_year_split g0 =
     (let gy1 = 1600 + 400 * (g0 div 146097);
          g1 = g0 mod 146097;
          (gy2, g2, leap2) =
            (if g1 \<ge> 36525 then
               (let g = g1 - 1;
                    gy = gy1 + 100 * (g div 36524);
                    g' = g mod 36524
                in if g' \<ge> 365 then (gy, g' + 1, True) else (gy, g', False))
             else (gy1, g1, True));
          gy3 = gy2 + 4 * (g2 div 1461);
          g3 = g2 mod 1461
      in if g3 \<ge> 366 then
           (let g = g3 - 1 in (gy3 + g div 365, g mod 365, False))
         else (gy3, g3, leap2))"

text \<open>
  Lines 150 to 160: the walk over \<open>_GREGORIAN_MONTH_LENGTHS\<close>, \<open>i\<close> the index of the head
  of the remaining table; \<open>None\<close> is the \<open>else\<close> branch of the loop.
\<close>

fun gregorian_month_loop :: "nat \<Rightarrow> int list \<Rightarrow> bool \<Rightarrow> int \<Rightarrow> (int \<times> int) option" where
  "gregorian_month_loop i [] leap g_day_no = None"
| "gregorian_month_loop i (month_len # rest) leap g_day_no =
     (let month_length = (if i = 1 \<and> leap then month_len + 1 else month_len)
      in if g_day_no < month_length then Some (int i + 1, g_day_no + 1)
         else gregorian_month_loop (Suc i) rest leap (g_day_no - month_length))"

definition gregorian_of_day_no :: "int \<Rightarrow> error + date" where
  "gregorian_of_day_no j_day_no =
     (let g_day_no = j_day_no + 79;
          (gy, g, leap) = gregorian_year_split g_day_no
      in case gregorian_month_loop 0 GREGORIAN_MONTH_LENGTHS leap g of
           None \<Rightarrow> Inl InternalConsistencyError
         | Some (gm, gd) \<Rightarrow> mk_date gy gm gd)"

definition jalali_to_gregorian_ymd :: "int \<times> int \<times> int \<Rightarrow> error + date" where
  "jalali_to_gregorian_ymd t =
     (case t of (jy, jm, jd) \<Rightarrow>
        (case jalali_day_no jy jm jd of
           Inl e \<Rightarrow> Inl e
         | Inr n \<Rightarrow> gregorian_of_day_no n))"

definition jalali_to_gregorian :: "jalali_value \<Rightarrow> error + date" where
  "jalali_to_gregorian v =
     (case coerce_jalali v of Inl e \<Rightarrow> Inl e | Inr t \<Rightarrow> jalali_to_gregorian_ymd t)"

definition is_jalali_leap :: "int \<Rightarrow> error + bool" where
  "is_jalali_leap y =
     (case jalali_to_gregorian (JSeq [y, 1, 1]) of
        Inl e \<Rightarrow> Inl e
      | Inr start \<Rightarrow>
          (case jalali_to_gregorian (JSeq [y + 1, 1, 1]) of
             Inl e \<Rightarrow> Inl e
           | Inr next_start \<Rightarrow> Inr (days_between next_start start = 366)))"

definition jalali_month_length :: "int \<Rightarrow> int \<Rightarrow> error + int" where
  "jalali_month_length y m =
     (if m \<le> 6 then Inr 31
      else if m \<le> 11 then Inr 30
      else (case is_jalali_leap y of Inl e \<Rightarrow> Inl e | Inr b \<Rightarrow> Inr (if b then 30 else 29)))"

text \<open>\<open>JalaliDate(y, m, d)\<close>: the dataclass constructor followed by \<open>__post_init__\<close>.\<close>

definition mk_JalaliDate :: "int \<Rightarrow> int \<Rightarrow> int \<Rightarrow> error + JalaliDate" where
  "mk_JalaliDate y m d =
     (if \<not> (1 \<le> m \<and> m \<le> 12) then Inl ValidationError
      else (case jalali_month_length y m of
              Inl e \<Rightarrow> Inl e
            | Inr max_day \<Rightarrow>
                (if \<not> (1 \<le> d \<and> d \<le> max_day) then Inl ValidationError
                 else Inr \<lparr>year = y, month = m, day = d\<rparr>)))"

text \<open>
  \<open>gregorian_to_jalali\<close> in three steps: lines 97 to 101 pick the Jalali year and its first
  day (\<open>resolve_jalali_year\<close>), lines 104 to 110 turn the day offset into a month and a
  day (\<open>jalali_month_day\<close>), line 112 builds the \<open>JalaliDate\<close>.
\<close>

definition resolve_jalali_year :: "int \<Rightarrow> date \<Rightarrow> error + int \<times> date" where
  "resolve_jalali_year gy target =
     (let jy = gy - 621
      in case jalali_to_gregorian (JSeq [jy, 1, 1]) of
           Inl e \<Rightarrow> Inl e
         | Inr start_of_year \<Rightarrow>
             (if date_less target start_of_year then
                (let jy' = jy - 1
                 in case jalali_to_gregorian (JSeq [jy', 1, 1]) of
                      Inl e \<Rightarrow> Inl e
                    | Inr start_of_year' \<Rightarrow> Inr (jy', start_of_year'))
              else Inr (jy, start_of_year)))"

definition jalali_month_day :: "int \<Rightarrow> int \<times> int" where
  "jalali_month_day days =
     (if days < 186 then (1 + days div 31, 1 + days mod 31)
      else (let days' = days - 186 in (7 + days' div 30, 1 + days' mod 30)))"

definition gregorian_to_jalali :: "gregorian_value \<Rightarrow> error + JalaliDate" where
  "gregorian_to_jalali v =
     (case coerce_gregorian v of
        Inl e \<Rightarrow> Inl e
      | Inr (gy, gm, gd) \<Rightarrow>
          (case mk_date gy gm gd of
             Inl e \<Rightarrow> Inl e
           | Inr target \<Rightarrow>
               (case resolve_jalali_year gy target of
                  Inl e \<Rightarrow> Inl e
                | Inr (jy, start_of_year) \<Rightarrow>
                    (case jalali_month_day (days_between target start_of_year) of
                       (jm, jd) \<Rightarrow> mk_JalaliDate jy jm jd))))"

text \<open>
  \<open>JalaliDate.isoformat(sep)\<close>. \<open>format_d w n\<close> is Python's format \<open>0wd\<close>: the decimal digits
  of \<open>n\<close>, padded with zeros to the width \<open>w\<close>, the sign of a negative number counted in
  the width (\<open>format_digits\<close>); a number of more than \<open>INT_MAX_STR_DIGITS\<close> digits is not
  converted. The three fields are formatted from left to right.
\<close>

definition digit_char :: "nat \<Rightarrow> char" where
  "digit_char n = char_of (48 + n)"

fun digits_of :: "nat \<Rightarrow> string" where
  "digits_of n = (if n < 10 then [digit_char n] else digits_of (n div 10) @ [digit_char (n mod 10)])"

declare digits_of.simps [simp del]

definition zero_pad :: "nat \<Rightarrow> string \<Rightarrow> string" where
  "zero_pad w s = replicate (w - length s) CHR ''0'' @ s"

definition format_digits :: "nat \<Rightarrow> int \<Rightarrow> string" where
  "format_digits w n =
     (if n < 0 then CHR ''-'' # zero_pad (w - 1) (digits_of (nat (- n)))
      else zero_pad w (digits_of (nat n)))"

definition format_d :: "nat \<Rightarrow> int \<Rightarrow> error + string" where
  "format_d w n =
     (if length (digits_of (nat \<bar>n\<bar>)) > INT_MAX_STR_DIGITS then Inl DigitLimitError
      else Inr (format_digits w n))"

text \<open>\<open>digits_value s\<close> is the number that a string of decimal digits denotes.\<close>

definition digits_value :: "string \<Rightarrow> int" where
  "digits_value s = foldl (\<lambda>a c. 10 * a + digit_val c) 0 s"

definition isoformat :: "JalaliDate \<Rightarrow> string \<Rightarrow> error + string" where
  "isoformat j sep =
     (case format_d 4 (year j) of
        Inl e \<Rightarrow> Inl e
      | Inr a \<Rightarrow>
          (case format_d 2 (month j) of
             Inl e \<Rightarrow> Inl e
           | Inr b \<Rightarrow>
               (case format_d 2 (day j) of
                  Inl e \<Rightarrow> Inl e
                | Inr c \<Rightarrow> Inr (a @ sep @ b @ sep @ c))))"

section \<open>Day numbers of the Jalali calendar\<close>

text \<open>
  Names for the quantities that \<open>jalali_to_gregorian\<close> computes on the way:
  \<open>jalali_year_day_no\<close> is \<open>j_day_no\<close> after line 121, \<open>jalali_days_before_month\<close> what
  the loop of lines 122 and 123 adds for a month in \<open>1..12\<close>, \<open>jalali_ordinal\<close> the
  ordinal of the Gregorian date that the conversion returns, and \<open>jalali_year_length\<close>
  the distance between two consecutive year starts.
\<close>

definition jalali_year_day_no :: "int \<Rightarrow> int" where
  "jalali_year_day_no jy = (let y = jy - 979 in 365 * y + y div 33 * 8 + ((y mod 33) + 3) div 4)"

definition jalali_days_before_month :: "int \<Rightarrow> int" where
  "jalali_days_before_month jm = (if jm \<le> 7 then 31 * (jm - 1) else 186 + 30 * (jm - 7))"

definition jalali_ordinal :: "int \<Rightarrow> int \<Rightarrow> int \<Rightarrow> int" where
  "jalali_ordinal jy jm jd =
     jalali_year_day_no jy + jalali_days_before_month jm + (jd - 1) + 584102"

definition jalali_year_length :: "int \<Rightarrow> int" where
  "jalali_year_length jy = jalali_year_day_no (jy + 1) - jalali_year_day_no jy"

text \<open>
  \<open>year_aligned gy\<close>: the first day of the Jalali year \<open>gy - 621\<close>, the candidate of
  \<open>gregorian_to_jalali\<close>, falls within the Gregorian year \<open>gy\<close>.
\<close>

definition year_aligned :: "int \<Rightarrow> bool" where
  "year_aligned gy \<longleftrightarrow>
     days_before_year gy < jalali_ordinal (gy - 621) 1 1
       \<and> jalali_ordinal (gy - 621) 1 1 \<le> days_before_year (gy + 1)"

section \<open>The preference helpers\<close>

text \<open>
  The state the helpers read and write. When the host framework is present
  (\<open>frappe = Some h\<close>) the values live in its defaults table, one slot for the system and
  one per user, and \<open>session_user h\<close> is \<open>frappe.session.user\<close>; the table is the abstract
  key-value store of the specification. Otherwise (\<open>frappe = None\<close>) they live in
  \<open>_FALLBACK_STORE\<close>. An optional string is Python's \<open>Optional[str]\<close>; \<open>truthy\<close> is its truth
  value and \<open>py_or v d\<close> the expression \<open>v or d\<close>.
\<close>

record host =
  session_user :: "string option"
  defaults_system :: "string option"
  defaults_user :: "string \<Rightarrow> string option"

record prefs =
  frappe :: "host option"
  fallback_system :: "string option"
  fallback_user :: "string \<Rightarrow> string option"

record CalendarSelection =
  sel_value :: string
  sel_source :: string

datatype py_value = PStr string | PBool bool

definition truthy :: "string option \<Rightarrow> bool" where
  "truthy v \<longleftrightarrow> (case v of None \<Rightarrow> False | Some s \<Rightarrow> s \<noteq> [])"

definition py_or :: "string option \<Rightarrow> string \<Rightarrow> string" where
  "py_or v d = (case v of None \<Rightarrow> d | Some s \<Rightarrow> if s = [] then d else s)"

definition lower_char :: "char \<Rightarrow> char" where
  "lower_char c =
     (let n = of_char c :: nat
      in if (65 \<le> n \<and> n \<le> 90) \<or> (192 \<le> n \<and> n \<le> 222 \<and> n \<noteq> 215) then char_of (n + 32) else c)"

definition lower :: "string \<Rightarrow> string" where
  "lower s = map lower_char s"

definition DEFAULT_CALENDAR :: string where
  "DEFAULT_CALENDAR = ''jalali''"

definition VALID_CALENDARS :: "string set" where
  "VALID_CALENDARS = {''jalali'', ''gregorian''}"

definition initial_store :: prefs where
  "initial_store = \<lparr>frappe = None, fallback_system = None, fallback_user = (\<lambda>u. None)\<rparr>"

definition normalize_calendar :: "string option \<Rightarrow> string option" where
  "normalize_calendar v =
     (case v of
        None \<Rightarrow> None
      | Some s \<Rightarrow> (let normalized = lower (strip s)
                   in if normalized \<in> VALID_CALENDARS then Some normalized else None))"

definition require_calendar :: "string option \<Rightarrow> error + string" where
  "require_calendar v =
     (let normalized = normalize_calendar v
      in if \<not> truthy normalized then Inl ValidationError else Inr (py_or normalized []))"

text \<open>
  A statement of a helper is a function from the store to the store it leaves and the value
  or the exception it ends with; \<open>seq\<close> runs one statement after another and stops at the
  first exception, keeping the store as it was when the exception was raised.
\<close>

type_synonym 'a action = "prefs \<Rightarrow> prefs \<times> (error + 'a)"

definition raise :: "error \<Rightarrow> 'a action" where
  "raise e p = (p, Inl e)"

definition seq :: "'a action \<Rightarrow> ('a \<Rightarrow> 'b action) \<Rightarrow> 'b action" where
  "seq m f p = (case m p of (p', Inl e) \<Rightarrow> (p', Inl e) | (p', Inr x) \<Rightarrow> f x p')"

definition read_system_value :: "prefs \<Rightarrow> string option" where
  "read_system_value p =
     (case frappe p of
        Some h \<Rightarrow> normalize_calendar (defaults_system h)
      | None \<Rightarrow> fallback_system p)"

definition write_system_value :: "string \<Rightarrow> unit action" where
  "write_system_value calendar p =
     (case frappe p of
        Some h \<Rightarrow> (p\<lparr>frappe := Some (h\<lparr>defaults_system := Some calendar\<rparr>)\<rparr>, Inr ())
      | None \<Rightarrow> (p\<lparr>fallback_system := Some calendar\<rparr>, Inr ()))"

definition read_user_value :: "string option \<Rightarrow> prefs \<Rightarrow> string option" where
  "read_user_value user p =
     (case frappe p of
        Some h \<Rightarrow>
          (let user' = (if \<not> truthy user then session_user h else user)
           in case user' of
                None \<Rightarrow> None
              | Some u \<Rightarrow> if u = [] \<or> u = ''Guest'' then None
                          else normalize_calendar (defaults_user h u))
      | None \<Rightarrow> (case user of None \<Rightarrow> None | Some u \<Rightarrow> fallback_user p u))"

definition write_user_value :: "string \<Rightarrow> string option \<Rightarrow> unit action" where
  "write_user_value calendar user p =
     (case frappe p of
        Some h \<Rightarrow>
          (let user' = (if \<not> truthy user then session_user h else user)
           in case user' of
                None \<Rightarrow> (p, Inl IdentityError)
              | Some u \<Rightarrow>
                  if u = [] \<or> u = ''Guest'' then (p, Inl IdentityError)
                  else (p\<lparr>frappe := Some (h\<lparr>defaults_user := (defaults_user h)(u \<mapsto> calendar)\<rparr>)\<rparr>,
                        Inr ()))
      | None \<Rightarrow>
          (case user of
             None \<Rightarrow> (p, Inl IdentityError)
           | Some u \<Rightarrow> (p\<lparr>fallback_user := (fallback_user p)(u \<mapsto> calendar)\<rparr>, Inr ())))"

definition get_system_calendar :: "bool \<Rightarrow> prefs \<Rightarrow> string" where
  "get_system_calendar raw p =
     (let stored = read_system_value p
      in if raw then py_or stored [] else py_or stored DEFAULT_CALENDAR)"

definition get_user_calendar :: "string option \<Rightarrow> prefs \<Rightarrow> string option" where
  "get_user_calendar user p = read_user_value user p"

definition resolve_calendar :: "string option \<Rightarrow> prefs \<Rightarrow> CalendarSelection" where
  "resolve_calendar user p =
     (let user_value = get_user_calendar user p
      in if truthy user_value then \<lparr>sel_value = py_or user_value [], sel_source = ''user''\<rparr>
         else (let system_raw = get_system_calendar True p
               in if system_raw \<noteq> [] then \<lparr>sel_value = system_raw, sel_source = ''system''\<rparr>
                  else \<lparr>sel_value = DEFAULT_CALENDAR, sel_source = ''default''\<rparr>))"

definition set_system_calendar :: "string option \<Rightarrow> CalendarSelection action" where
  "set_system_calendar calendar =
     seq (\<lambda>p. (p, require_calendar calendar)) (\<lambda>selected.
     seq (write_system_value selected) (\<lambda>_.
     (\<lambda>p. (p, Inr (resolve_calendar None p)))))"

definition set_user_calendar :: "string option \<Rightarrow> string option \<Rightarrow> CalendarSelection action" where
  "set_user_calendar calendar user =
     seq (\<lambda>p. (p, require_calendar calendar)) (\<lambda>selected.
     seq (write_user_value selected user) (\<lambda>_.
     (\<lambda>p. (p, Inr (resolve_calendar user p)))))"

definition is_jalali_enabled :: "string option \<Rightarrow> prefs \<Rightarrow> bool" where
  "is_jalali_enabled user p \<longleftrightarrow> sel_value (resolve_calendar user p) = ''jalali''"

text \<open>The context is a dictionary; a key that the source leaves out is absent from the list.\<close>

definition get_preference_context :: "string option \<Rightarrow> prefs \<Rightarrow> (string \<times> py_value) list" where
  "get_preference_context user p =
     (let resolved = resolve_calendar user p;
          context = [(''active_calendar'', PStr (sel_value resolved)),
                     (''source'', PStr (sel_source resolved)),
                     (''is_jalali_enabled'', PBool (sel_value resolved = ''jalali''))];
          system_raw = get_system_calendar True p;
          context1 = (if system_raw \<noteq> [] then context @ [(''system_calendar'', PStr system_raw)]
                      else context);
          user_raw = get_user_calendar user p
      in if truthy user_raw then context1 @ [(''user_calendar'', PStr (py_or user_raw []))]
         else context1)"

definition set_calendar_preference ::
  "string option \<Rightarrow> string option \<Rightarrow> string option \<Rightarrow> (string \<times> py_value) list action" where
  "set_calendar_preference scope calendar user =
     (let normalized_scope = lower (strip (py_or scope ''user''))
      in if normalized_scope = ''system'' then
           seq (set_system_calendar calendar) (\<lambda>_ p. (p, Inr (get_preference_context None p)))
         else if normalized_scope = ''user'' then
           seq (set_user_calendar calendar user) (\<lambda>_ p. (p, Inr (get_preference_context user p)))
         else raise ValidationError)"

text \<open>
  For the statements of the claims: the identity a per-user read or write resolves (the
  argument, or the session user of the host when the argument is missing or empty; no
  identity for a missing one and for \<open>Guest\<close>), the raw slots, and the calendar arguments
  that \<open>_require_calendar\<close> lets through.
\<close>

definition resolved_user :: "string option \<Rightarrow> prefs \<Rightarrow> string option" where
  "resolved_user user p =
     (case frappe p of
        Some h \<Rightarrow>
          (let u = (if truthy user then user else session_user h)
           in if truthy u \<and> u \<noteq> Some ''Guest'' then u else None)
      | None \<Rightarrow> user)"

definition system_slot :: "prefs \<Rightarrow> string option" where
  "system_slot p = (case frappe p of Some h \<Rightarrow> defaults_system h | None \<Rightarrow> fallback_system p)"

definition user_slot :: "prefs \<Rightarrow> string \<Rightarrow> string option" where
  "user_slot p u = (case frappe p of Some h \<Rightarrow> defaults_user h u | None \<Rightarrow> fallback_user p u)"

definition acceptable_calendar :: "string option \<Rightarrow> bool" where
  "acceptable_calendar v \<longleftrightarrow>
     (case v of None \<Rightarrow> False | Some s \<Rightarrow> lower (strip s) = ''jalali'' \<or> lower (strip s) = ''gregorian'')"

section \<open>The Gregorian year decomposition\<close>

text \<open>
  Every year is \<open>1600 + 400 a + 100 b + 4 c + e\<close> with \<open>b \<le> 3\<close>, \<open>c \<le> 24\<close>, \<open>e \<le> 3\<close>. For
  such a year the days before it and its leap status have closed forms
  (\<open>dby_form\<close>, \<open>leap_form\<close>); \<open>year_split_form\<close> follows the branches of
  \<open>gregorian_year_split\<close> and reads off \<open>a\<close>, \<open>b\<close>, \<open>c\<close>, \<open>e\<close> and the day left over. Together:
  the split returns the year that contains the day number, the day within it and its leap
  status (\<open>year_split_correct\<close>), and the month loop always stops (\<open>month_loop_form\<close>).
\<close>

lemma div4_form: "0 \<le> e \<Longrightarrow> e \<le> 3 \<Longrightarrow> (1599 + 4 * X + e) div 4 = X + 399 + (if e = 0 then 0 else 1)" for X e :: int
proof (cases "e = 0")
  case True
  then show ?thesis by (simp add: int_div_pos_eq[where r = 3])
next
  case False
  assume "0 \<le> e" "e \<le> 3"
  with False show ?thesis by (simp add: int_div_pos_eq[where r = "e - 1"])
qed

lemma div100_form: "0 \<le> u \<Longrightarrow> u \<le> 99 \<Longrightarrow> (1599 + 100 * X + u) div 100 = X + 15 + (if u = 0 then 0 else 1)" for X u :: int
proof (cases "u = 0")
  case True
  then show ?thesis by (simp add: int_div_pos_eq[where r = 99])
next
  case False
  assume "0 \<le> u" "u \<le> 99"
  with False show ?thesis by (simp add: int_div_pos_eq[where r = "u - 1"])
qed

lemma div400_form: "0 \<le> t \<Longrightarrow> t \<le> 399 \<Longrightarrow> (1599 + 400 * X + t) div 400 = X + 3 + (if t = 0 then 0 else 1)" for X t :: int
proof (cases "t = 0")
  case True
  then show ?thesis by (simp add: int_div_pos_eq[where r = 399])
next
  case False
  assume "0 \<le> t" "t \<le> 399"
  with False show ?thesis by (simp add: int_div_pos_eq[where r = "t - 1"])
qed

lemma dby_form:
  assumes "0 \<le> b" "b \<le> 3" "0 \<le> c" "c \<le> 24" "0 \<le> e" "e \<le> 3"
  shows "days_before_year (1600 + 400*a + 100*b + 4*c + e) =
     584022 + 146097*a + 36524*b + 1461*c + 365*e
       + (if e = 0 then 0 else 1) - (if 4*c + e = 0 then 0 else 1) + (if 100*b + 4*c + e = 0 then 0 else 1)"
proof -
  have y: "1600 + 400*a + 100*b + 4*c + e - 1 = 1599 + 4 * (100*a + 25*b + c) + e"
    "1600 + 400*a + 100*b + 4*c + e - 1 = 1599 + 100 * (4*a + b) + (4*c + e)"
    "1600 + 400*a + 100*b + 4*c + e - 1 = 1599 + 400 * a + (100*b + 4*c + e)"
    by simp_all
  have d4: "(1600 + 400*a + 100*b + 4*c + e - 1) div 4 = (100*a + 25*b + c) + 399 + (if e = 0 then 0 else 1)"
    unfolding y(1) using assms by (intro div4_form) simp_all
  have d100: "(1600 + 400*a + 100*b + 4*c + e - 1) div 100 = (4*a + b) + 15 + (if 4*c + e = 0 then 0 else 1)"
    unfolding y(2) using assms by (intro div100_form) simp_all
  have d400: "(1600 + 400*a + 100*b + 4*c + e - 1) div 400 = a + 3 + (if 100*b + 4*c + e = 0 then 0 else 1)"
    unfolding y(3) using assms by (intro div400_form) simp_all
  show ?thesis
    unfolding days_before_year_def Let_def d4 d100 d400 by simp
qed

lemma leap_form:
  assumes "0 \<le> b" "b \<le> 3" "0 \<le> c" "c \<le> 24" "0 \<le> e" "e \<le> 3"
  shows "is_gregorian_leap (1600 + 400*a + 100*b + 4*c + e) \<longleftrightarrow> e = 0 \<and> (c \<noteq> 0 \<or> b = 0)"
proof -
  let ?gy = "1600 + 400*a + 100*b + 4*c + e"
  have m4: "?gy mod 4 = e"
    by (rule int_mod_pos_eq[where q = "400 + 100*a + 25*b + c"]) (use assms in simp_all)
  have m100: "?gy mod 100 = 4*c + e"
    by (rule int_mod_pos_eq[where q = "16 + 4*a + b"]) (use assms in simp_all)
  have m400: "?gy mod 400 = 100*b + 4*c + e"
    by (rule int_mod_pos_eq[where q = "4 + a"]) (use assms in simp_all)
  show ?thesis
    unfolding is_gregorian_leap_def m4 m100 m400 using assms by auto
qed

lemma divmod_int_obtain:
  fixes n k :: int
  assumes "0 < k"
  obtains q r where "n div k = q" "n mod k = r" "n = k * q + r" "0 \<le> r" "r < k"
  using assms by (metis mult_div_mod_eq pos_mod_bound pos_mod_sign)

lemma year_split_form:
  "\<exists>a b c e r leap.
     gregorian_year_split g0 = (1600 + 400*a + 100*b + 4*c + e, r, leap)
     \<and> 0 \<le> b \<and> b \<le> 3 \<and> 0 \<le> c \<and> c \<le> 24 \<and> 0 \<le> e \<and> e \<le> 3
     \<and> 0 \<le> r \<and> r < (if leap then 366 else 365)
     \<and> (leap \<longleftrightarrow> e = 0 \<and> (c \<noteq> 0 \<or> b = 0))
     \<and> g0 = 146097*a + 36524*b + 1461*c + 365*e
            + (if e = 0 then 0 else 1) - (if 4*c + e = 0 then 0 else 1)
            + (if 100*b + 4*c + e = 0 then 0 else 1) + r"
proof -
  obtain a g1 where a: "g0 div 146097 = a" "g0 mod 146097 = g1"
      and al: "g0 = 146097 * a + g1" "0 \<le> g1" "g1 < 146097"
    by (rule divmod_int_obtain[of 146097 g0]) simp_all
  show ?thesis
  proof (cases "g1 \<ge> 36525")
    case False
    obtain c g3 where c: "g1 div 1461 = c" "g1 mod 1461 = g3"
        and cl: "g1 = 1461 * c + g3" "0 \<le> g3" "g3 < 1461"
      by (rule divmod_int_obtain[of 1461 g1]) simp_all
    have cb: "0 \<le> c" "c \<le> 24" using cl False al by linarith+
    show ?thesis
    proof (cases "g3 \<ge> 366")
      case True
      obtain e r where e: "(g3 - 1) div 365 = e" "(g3 - 1) mod 365 = r"
          and el: "g3 - 1 = 365 * e + r" "0 \<le> r" "r < 365"
        by (rule divmod_int_obtain[of 365 "g3 - 1"]) simp_all
      have eb: "1 \<le> e" "e \<le> 3" using el True cl by linarith+
      have sp: "gregorian_year_split g0 = (1600 + 400*a + 100*0 + 4*c + e, r, False)"
        unfolding gregorian_year_split_def Let_def using False True by (simp add: a c e)
      have g: "g0 = 146097*a + 1461*c + 365*e + 1 + r" using al cl el by linarith
      show ?thesis
        apply (rule exI[of _ a], rule exI[of _ 0], rule exI[of _ c], rule exI[of _ e], rule exI[of _ r], rule exI[of _ False])
        using sp cb eb el(2,3) g by simp
    next
      case g3: False
      have sp: "gregorian_year_split g0 = (1600 + 400*a + 100*0 + 4*c + 0, g3, True)"
        unfolding gregorian_year_split_def Let_def using False g3 by (simp add: a c)
      have g: "g0 = 146097*a + 1461*c + g3" using al cl by linarith
      show ?thesis
        apply (rule exI[of _ a], rule exI[of _ 0], rule exI[of _ c], rule exI[of _ 0], rule exI[of _ g3], rule exI[of _ True])
        using sp cb cl(2) g3 g by simp
    qed
  next
    case True
    obtain b g' where b: "(g1 - 1) div 36524 = b" "(g1 - 1) mod 36524 = g'"
        and bl: "g1 - 1 = 36524 * b + g'" "0 \<le> g'" "g' < 36524"
      by (rule divmod_int_obtain[of 36524 "g1 - 1"]) simp_all
    have bb: "1 \<le> b" "b \<le> 3" using bl True al by linarith+
    show ?thesis
    proof (cases "g' \<ge> 365")
      case g': False
      have dm: "g' div 1461 = 0" "g' mod 1461 = g'" using g' bl(2) by simp_all
      have sp: "gregorian_year_split g0 = (1600 + 400*a + 100*b + 4*0 + 0, g', False)"
        unfolding gregorian_year_split_def Let_def using True g' by (simp add: a b dm)
      have g: "g0 = 146097*a + 36524*b + 1 + g'" using al bl by linarith
      show ?thesis
        apply (rule exI[of _ a], rule exI[of _ b], rule exI[of _ 0], rule exI[of _ 0], rule exI[of _ g'], rule exI[of _ False])
        using sp bb bl(2) g' g by simp
    next
      case g': True
      obtain c g3 where c: "(g' + 1) div 1461 = c" "(g' + 1) mod 1461 = g3"
          and cl: "g' + 1 = 1461 * c + g3" "0 \<le> g3" "g3 < 1461"
        by (rule divmod_int_obtain[of 1461 "g' + 1"]) simp_all
      have cb: "0 \<le> c" "c \<le> 24" using cl bl by linarith+
      show ?thesis
      proof (cases "g3 \<ge> 366")
        case g3: True
        obtain e r where e: "(g3 - 1) div 365 = e" "(g3 - 1) mod 365 = r"
            and el: "g3 - 1 = 365 * e + r" "0 \<le> r" "r < 365"
          by (rule divmod_int_obtain[of 365 "g3 - 1"]) simp_all
        have eb: "1 \<le> e" "e \<le> 3" using el g3 cl by linarith+
        have sp: "gregorian_year_split g0 = (1600 + 400*a + 100*b + 4*c + e, r, False)"
          unfolding gregorian_year_split_def Let_def using True g' g3 by (simp add: a b c e)
        have g: "g0 = 146097*a + 36524*b + 1461*c + 365*e + 1 + r" using al bl cl el by linarith
        show ?thesis
          apply (rule exI[of _ a], rule exI[of _ b], rule exI[of _ c], rule exI[of _ e], rule exI[of _ r], rule exI[of _ False])
          using sp bb cb eb el(2,3) g by simp
      next
        case g3: False
        have c1: "1 \<le> c" using cl g3 g' by linarith
        have sp: "gregorian_year_split g0 = (1600 + 400*a + 100*b + 4*c + 0, g3, True)"
          unfolding gregorian_year_split_def Let_def using True g' g3 by (simp add: a b c)
        have g: "g0 = 146097*a + 36524*b + 1461*c + g3" using al bl cl by linarith
        show ?thesis
          apply (rule exI[of _ a], rule exI[of _ b], rule exI[of _ c], rule exI[of _ 0], rule exI[of _ g3], rule exI[of _ True])
          using sp bb cb c1 cl(2) g3 g by simp
      qed
    qed
  qed
qed

lemma year_split_correct:
  "case gregorian_year_split g0 of (gy, r, leap) \<Rightarrow>
     0 \<le> r \<and> r < (if leap then 366 else 365) \<and> (leap \<longleftrightarrow> is_gregorian_leap gy)
       \<and> days_before_year gy + r = g0 + 584022"
proof -
  obtain a b c e r leap where
    sp: "gregorian_year_split g0 = (1600 + 400*a + 100*b + 4*c + e, r, leap)"
    and bd: "0 \<le> b" "b \<le> 3" "0 \<le> c" "c \<le> 24" "0 \<le> e" "e \<le> 3"
    and r: "0 \<le> r" "r < (if leap then 366 else 365)"
    and lp: "leap \<longleftrightarrow> e = 0 \<and> (c \<noteq> 0 \<or> b = 0)"
    and g: "g0 = 146097*a + 36524*b + 1461*c + 365*e
            + (if e = 0 then 0 else 1) - (if 4*c + e = 0 then 0 else 1)
            + (if 100*b + 4*c + e = 0 then 0 else 1) + r"
    using year_split_form[of g0] by blast
  have "days_before_year (1600 + 400*a + 100*b + 4*c + e) + r = g0 + 584022"
    unfolding dby_form[OF bd] g by simp
  moreover have "leap \<longleftrightarrow> is_gregorian_leap (1600 + 400*a + 100*b + 4*c + e)"
    unfolding leap_form[OF bd] lp ..
  ultimately show ?thesis using sp r by simp
qed

lemma month_loop_form:
  assumes "0 \<le> r" "r < (if is_gregorian_leap y then 366 else 365)"
  shows "\<exists>gm gd. gregorian_month_loop 0 GREGORIAN_MONTH_LENGTHS (is_gregorian_leap y) r = Some (gm, gd)
     \<and> 1 \<le> gm \<and> gm \<le> 12 \<and> 1 \<le> gd \<and> gd \<le> days_in_month y gm
     \<and> days_before_month y gm + gd = r + 1"
proof (cases "is_gregorian_leap y")
  case True
  with assms show ?thesis
    by (simp add: GREGORIAN_MONTH_LENGTHS_def days_in_month_def days_before_month_def Let_def)
next
  case False
  with assms show ?thesis
    by (simp add: GREGORIAN_MONTH_LENGTHS_def days_in_month_def days_before_month_def Let_def)
qed

lemma div_succ_int:
  fixes n k :: int
  assumes "0 < k"
  shows "(n + 1) div k = n div k + (if (n + 1) mod k = 0 then 1 else 0)"
proof -
  obtain q r where qr: "n div k = q" "n mod k = r" and l: "n = k * q + r" "0 \<le> r" "r < k"
    by (rule divmod_int_obtain[OF assms, of n])
  show ?thesis
  proof (cases "r + 1 = k")
    case True
    have e: "n + 1 = k * (q + 1) + 0" using l True by (simp add: algebra_simps)
    have "(n + 1) div k = q + 1" by (rule int_div_pos_eq[OF e]) (use assms in simp_all)
    moreover have "(n + 1) mod k = 0" by (rule int_mod_pos_eq[OF e]) (use assms in simp_all)
    ultimately show ?thesis using qr by simp
  next
    case False
    have e: "n + 1 = k * q + (r + 1)" using l by simp
    have b: "0 \<le> r + 1" "r + 1 < k" using l False by linarith+
    have "(n + 1) div k = q" by (rule int_div_pos_eq[OF e b])
    moreover have "(n + 1) mod k = r + 1" by (rule int_mod_pos_eq[OF e b])
    ultimately show ?thesis using qr l by simp
  qed
qed

lemma mod_0_coarser:
  fixes y :: int
  assumes "k dvd m" "y mod m = 0"
  shows "y mod k = 0"
proof -
  from assms(2) have "m dvd y" by (simp add: dvd_eq_mod_eq_0)
  with assms(1) have "k dvd y" by (rule dvd_trans)
  then show ?thesis by (simp add: dvd_eq_mod_eq_0)
qed

lemma dby_step:
  "days_before_year (y + 1) = days_before_year y + (if is_gregorian_leap y then 366 else 365)"
proof -
  define A where "A = (y - 1) div 4"
  define B where "B = (y - 1) div 100"
  define C where "C = (y - 1) div 400"
  define p where "p \<longleftrightarrow> y mod 4 = 0"
  define q where "q \<longleftrightarrow> y mod 100 = 0"
  define r where "r \<longleftrightarrow> y mod 400 = 0"
  have d4: "y div 4 = A + (if p then 1 else 0)"
    using div_succ_int[of 4 "y - 1"] by (simp add: A_def p_def)
  have d100: "y div 100 = B + (if q then 1 else 0)"
    using div_succ_int[of 100 "y - 1"] by (simp add: B_def q_def)
  have d400: "y div 400 = C + (if r then 1 else 0)"
    using div_succ_int[of 400 "y - 1"] by (simp add: C_def r_def)
  have i1: "q \<Longrightarrow> p" unfolding p_def q_def by (rule mod_0_coarser[of 4 100]) simp_all
  have i2: "r \<Longrightarrow> q" unfolding q_def r_def by (rule mod_0_coarser[of 100 400]) simp_all
  have l: "is_gregorian_leap y \<longleftrightarrow> p \<and> (\<not> q \<or> r)"
    by (simp add: is_gregorian_leap_def p_def q_def r_def)
  have "days_before_year (y + 1) = y * 365 + (A + (if p then 1 else 0)) - (B + (if q then 1 else 0)) + (C + (if r then 1 else 0))"
    by (simp add: days_before_year_def Let_def d4 d100 d400)
  moreover have "days_before_year y = (y - 1) * 365 + A - B + C"
    by (simp add: days_before_year_def Let_def A_def B_def C_def)
  ultimately show ?thesis
    unfolding l using i1 i2 by (cases p; cases q; cases r; simp)
qed

lemma dby_mono: "a \<le> b \<Longrightarrow> days_before_year a \<le> days_before_year b"
proof (induction b rule: int_ge_induct)
  case base
  then show ?case by simp
next
  case (step i)
  then show ?case using dby_step[of i] by (simp split: if_splits)
qed

lemma dby_strict: "a < b \<Longrightarrow> days_before_year a + 365 \<le> days_before_year b"
  using dby_mono[of "a + 1" b] dby_step[of a] by (simp split: if_splits)

section \<open>Ordinals of Gregorian dates\<close>

text \<open>
  On valid dates the ordinal is strictly monotone for the order of the
  \<open>(year, month, day)\<close> tuples, hence injective, and it lies within the year of the date.
\<close>

lemma month_cases:
  fixes m :: int
  assumes "1 \<le> m" "m \<le> 12"
  shows "m = 1 \<or> m = 2 \<or> m = 3 \<or> m = 4 \<or> m = 5 \<or> m = 6 \<or> m = 7 \<or> m = 8 \<or> m = 9
     \<or> m = 10 \<or> m = 11 \<or> m = 12"
  using assms by presburger

lemma dbm_next:
  assumes "1 \<le> m" "m \<le> 12"
  shows "days_before_month y (m + 1) = days_before_month y m + days_in_month y m"
  using month_cases[OF assms]
  by (elim disjE) (simp_all add: days_before_month_def days_in_month_def GREGORIAN_MONTH_LENGTHS_def)

lemma dim_pos:
  assumes "1 \<le> m" "m \<le> 12"
  shows "28 \<le> days_in_month y m"
  using month_cases[OF assms]
  by (elim disjE) (simp_all add: days_in_month_def GREGORIAN_MONTH_LENGTHS_def)

lemma dbm_first: "days_before_month y 1 = 0"
  by (simp add: days_before_month_def)

lemma dbm_last: "days_before_month y 13 = (if is_gregorian_leap y then 366 else 365)"
  by (simp add: days_before_month_def GREGORIAN_MONTH_LENGTHS_def)

lemma dbm_mono:
  assumes "1 \<le> m" "m \<le> n" "n \<le> 13"
  shows "days_before_month y m \<le> days_before_month y n"
  using assms(2,1,3)
proof (induction n rule: int_ge_induct)
  case base
  then show ?case by simp
next
  case (step i)
  then show ?case using dbm_next[of i y] dim_pos[of i y] by simp
qed

lemma dbm_strict:
  assumes "1 \<le> m" "m < n" "n \<le> 12"
  shows "days_before_month y m + days_in_month y m \<le> days_before_month y n"
  using dbm_mono[of "m + 1" n y] dbm_next[of m y] assms by simp

lemma yday_bounds:
  assumes "valid_date d"
  shows "1 \<le> days_before_month (date_year d) (date_month d) + date_day d"
    and "days_before_month (date_year d) (date_month d) + date_day d
           \<le> (if is_gregorian_leap (date_year d) then 366 else 365)"
proof -
  let ?y = "date_year d" and ?m = "date_month d"
  have m: "1 \<le> ?m" "?m \<le> 12" and dd: "1 \<le> date_day d" "date_day d \<le> days_in_month ?y ?m"
    using assms by (simp_all add: valid_date_def)
  have "0 \<le> days_before_month ?y ?m" using dbm_mono[of 1 ?m ?y] m by (simp add: dbm_first)
  then show "1 \<le> days_before_month ?y ?m + date_day d" using dd by linarith
  have "days_before_month ?y (?m + 1) \<le> days_before_month ?y 13"
    using m by (intro dbm_mono) simp_all
  then show "days_before_month ?y ?m + date_day d \<le> (if is_gregorian_leap ?y then 366 else 365)"
    using dbm_next[OF m, of ?y] dd unfolding dbm_last by linarith
qed

lemma toordinal_year_bounds:
  assumes "valid_date d"
  shows "days_before_year (date_year d) < toordinal d"
    and "toordinal d \<le> days_before_year (date_year d + 1)"
  using yday_bounds[OF assms] dby_step[of "date_year d"]
  by (simp_all add: toordinal_def split: if_splits)

lemma toordinal_less:
  assumes "valid_date a" "valid_date b" "date_less a b"
  shows "toordinal a < toordinal b"
proof -
  consider (y) "date_year a < date_year b"
    | (m) "date_year a = date_year b" "date_month a < date_month b"
    | (d) "date_year a = date_year b" "date_month a = date_month b" "date_day a < date_day b"
    using assms(3) unfolding date_less_def by blast
  then show ?thesis
  proof cases
    case y
    then have "days_before_year (date_year a + 1) \<le> days_before_year (date_year b)"
      by (intro dby_mono) simp
    then show ?thesis
      using toordinal_year_bounds(2)[OF assms(1)] toordinal_year_bounds(1)[OF assms(2)] by linarith
  next
    case m
    have "days_before_month (date_year a) (date_month a) + days_in_month (date_year a) (date_month a)
            \<le> days_before_month (date_year a) (date_month b)"
      using assms(1,2) m by (intro dbm_strict) (simp_all add: valid_date_def)
    then show ?thesis using assms(1,2) m by (simp add: toordinal_def valid_date_def)
  next
    case d
    then show ?thesis by (simp add: toordinal_def)
  qed
qed

lemma date_trichotomy: "date_less a b \<or> a = b \<or> date_less b a"
  by (cases a; cases b) (auto simp: date_less_def)

lemma toordinal_less_iff:
  assumes "valid_date a" "valid_date b"
  shows "date_less a b \<longleftrightarrow> toordinal a < toordinal b"
  using toordinal_less[OF assms] toordinal_less[OF assms(2,1)] date_trichotomy[of a b] by auto

lemma toordinal_inj:
  assumes "valid_date a" "valid_date b" "toordinal a = toordinal b"
  shows "a = b"
  using toordinal_less[OF assms(1,2)] toordinal_less[OF assms(2,1)] date_trichotomy[of a b] assms(3)
  by auto

section \<open>Day numbers of Jalali dates\<close>

text \<open>
  A Jalali year has 365 or 366 days in the day-number arithmetic of line 121, so the year
  starts are strictly increasing; for a month in \<open>1..12\<close> the loop over the month table
  adds \<open>jalali_days_before_month\<close>.
\<close>

lemma jalali_year_length_cases: "jalali_year_length jy = 365 \<or> jalali_year_length jy = 366"
proof -
  define x where "x = jy - 979"
  obtain q r where qr: "x div 33 = q" "x mod 33 = r" and l: "x = 33 * q + r" "0 \<le> r" "r < 33"
    by (rule divmod_int_obtain[of 33 x]) simp
  have x1: "jy + 1 - 979 = x + 1" by (simp add: x_def)
  show ?thesis
  proof (cases "r = 32")
    case True
    have e: "x + 1 = 33 * (q + 1) + 0" using l True by simp
    have d: "(x + 1) div 33 = q + 1" by (rule int_div_pos_eq[OF e]) simp_all
    have m: "(x + 1) mod 33 = 0" by (rule int_mod_pos_eq[OF e]) simp_all
    show ?thesis
      unfolding jalali_year_length_def jalali_year_day_no_def Let_def x1 x_def[symmetric] d m qr
      using True by simp
  next
    case False
    have e: "x + 1 = 33 * q + (r + 1)" using l by simp
    have b: "0 \<le> r + 1" "r + 1 < 33" using l False by linarith+
    have d: "(x + 1) div 33 = q" by (rule int_div_pos_eq[OF e b])
    have m: "(x + 1) mod 33 = r + 1" by (rule int_mod_pos_eq[OF e b])
    have s: "(r + 1 + 3) div 4 = (r + 3) div 4 + (if (r + 3 + 1) mod 4 = 0 then 1 else 0)"
      using div_succ_int[of 4 "r + 3"] by (simp add: add.commute add.left_commute)
    show ?thesis
      unfolding jalali_year_length_def jalali_year_day_no_def Let_def x1 x_def[symmetric] d m qr s
      by simp
  qed
qed

lemma jalali_year_day_no_step:
  "jalali_year_day_no (jy + 1) = jalali_year_day_no jy + jalali_year_length jy"
  by (simp add: jalali_year_length_def)

lemma jalali_year_day_no_mono: "a \<le> b \<Longrightarrow> jalali_year_day_no a \<le> jalali_year_day_no b"
proof (induction b rule: int_ge_induct)
  case base
  then show ?case by simp
next
  case (step i)
  then show ?case
    using jalali_year_length_cases[of i] by (auto simp: jalali_year_day_no_step)
qed

lemma jalali_year_day_no_strict:
  "a < b \<Longrightarrow> jalali_year_day_no a + jalali_year_length a \<le> jalali_year_day_no b"
  using jalali_year_day_no_mono[of "a + 1" b] by (simp add: jalali_year_day_no_step)

lemma jalali_day_no_form:
  assumes "1 \<le> jm" "jm \<le> 12"
  shows "jalali_day_no jy jm jd
           = Inr (jalali_year_day_no jy + jalali_days_before_month jm + (jd - 1))"
  using month_cases[OF assms]
  by (elim disjE)
     (simp_all add: jalali_day_no_def jalali_year_day_no_def jalali_days_before_month_def
        JALALI_MONTH_LENGTHS_def Let_def eval_nat_numeral)

section \<open>From a Jalali day number to the Gregorian date\<close>

lemma dby_1: "days_before_year 1 = 0"
  by (simp add: days_before_year_def)

lemma dby_10000: "days_before_year 10000 = 3652059"
  by (simp add: days_before_year_def)

text \<open>The decomposition always finds a month; the date it builds has the expected ordinal.\<close>

lemma gregorian_of_day_no_cases:
  obtains (ok) d where "gregorian_of_day_no n = Inr d" "valid_date d"
      "toordinal d = n + 584102"
    | (range) "gregorian_of_day_no n = Inl DateRangeError"
      "n + 584102 < 1 \<or> 3652059 < n + 584102"
proof -
  obtain gy r leap where sp: "gregorian_year_split (n + 79) = (gy, r, leap)"
    by (cases "gregorian_year_split (n + 79)") auto
  have c: "0 \<le> r" "r < (if leap then 366 else 365)" "leap \<longleftrightarrow> is_gregorian_leap gy"
    "days_before_year gy + r = n + 79 + 584022"
    using year_split_correct[of "n + 79"] unfolding sp by (auto split: if_splits)
  obtain gm gd where ml: "gregorian_month_loop 0 GREGORIAN_MONTH_LENGTHS leap r = Some (gm, gd)"
    and b: "1 \<le> gm" "gm \<le> 12" "1 \<le> gd" "gd \<le> days_in_month gy gm"
    and o: "days_before_month gy gm + gd = r + 1"
    using month_loop_form[of r gy] c(1,2) unfolding c(3) by blast
  have g: "gregorian_of_day_no n = mk_date gy gm gd"
    by (simp add: gregorian_of_day_no_def sp ml)
  have ord: "days_before_year gy + days_before_month gy gm + gd = n + 584102"
    using c(4) o by linarith
  show ?thesis
  proof (cases "1 \<le> gy \<and> gy \<le> 9999")
    case True
    then have v: "valid_date (Date gy gm gd)" using b by (simp add: valid_date_def)
    show ?thesis
    proof (rule ok)
      show "gregorian_of_day_no n = Inr (Date gy gm gd)" using g v by (simp add: mk_date_def)
      show "valid_date (Date gy gm gd)" by (rule v)
      show "toordinal (Date gy gm gd) = n + 584102" using ord by (simp add: toordinal_def)
    qed
  next
    case False
    then have nv: "\<not> valid_date (Date gy gm gd)" by (auto simp: valid_date_def)
    have lo: "days_before_year gy < n + 584102" using c(1,4) by linarith
    have hi: "n + 584102 \<le> days_before_year (gy + 1)"
      using c(2,4) dby_step[of gy] unfolding c(3) by (simp split: if_splits)
    show ?thesis
    proof (rule range)
      show "gregorian_of_day_no n = Inl DateRangeError" using g nv by (simp add: mk_date_def)
      show "n + 584102 < 1 \<or> 3652059 < n + 584102"
      proof (cases "gy < 1")
        case True
        then have "days_before_year (gy + 1) \<le> days_before_year 1" by (intro dby_mono) simp
        then show ?thesis using hi by (simp add: dby_1)
      next
        case f: False
        with False have "10000 \<le> gy" by simp
        then have "days_before_year 10000 \<le> days_before_year gy" by (rule dby_mono)
        then show ?thesis using lo by (simp add: dby_10000)
      qed
    qed
  qed
qed

lemma gregorian_of_day_no_in_range:
  assumes "1 \<le> n + 584102" "n + 584102 \<le> 3652059"
  obtains d where "gregorian_of_day_no n = Inr d" "valid_date d" "toordinal d = n + 584102"
  using gregorian_of_day_no_cases[of n] assms by (metis not_less)

lemma toordinal_range:
  assumes "valid_date d"
  shows "1 \<le> toordinal d" "toordinal d \<le> 3652059"
proof -
  have "days_before_year 1 \<le> days_before_year (date_year d)"
    using assms by (intro dby_mono) (simp add: valid_date_def)
  then show "1 \<le> toordinal d" using toordinal_year_bounds(1)[OF assms] by (simp add: dby_1)
  have "days_before_year (date_year d + 1) \<le> days_before_year 10000"
    using assms by (intro dby_mono) (simp add: valid_date_def)
  then show "toordinal d \<le> 3652059" using toordinal_year_bounds(2)[OF assms] by (simp add: dby_10000)
qed

lemma jalali_to_gregorian_seq:
  "jalali_to_gregorian (JSeq [jy, jm, jd]) = jalali_to_gregorian_ymd (jy, jm, jd)"
  by (simp add: jalali_to_gregorian_def coerce_seq_def)

lemma jalali_to_gregorian_ymd_form:
  assumes "1 \<le> jm" "jm \<le> 12"
  shows "jalali_to_gregorian_ymd (jy, jm, jd) = gregorian_of_day_no (jalali_ordinal jy jm jd - 584102)"
proof -
  have "jalali_ordinal jy jm jd - 584102
          = jalali_year_day_no jy + jalali_days_before_month jm + (jd - 1)"
    by (simp add: jalali_ordinal_def)
  then show ?thesis
    by (simp only: jalali_to_gregorian_ymd_def jalali_day_no_form[OF assms] prod.case sum.case)
qed

lemma jalali_to_gregorian_ymd_ok:
  assumes "1 \<le> jm" "jm \<le> 12" "1 \<le> jalali_ordinal jy jm jd" "jalali_ordinal jy jm jd \<le> 3652059"
  obtains d where "jalali_to_gregorian_ymd (jy, jm, jd) = Inr d" "valid_date d"
    "toordinal d = jalali_ordinal jy jm jd"
  using gregorian_of_day_no_in_range[of "jalali_ordinal jy jm jd - 584102"] assms(3,4)
  unfolding jalali_to_gregorian_ymd_form[OF assms(1,2)] by auto

lemma jalali_to_gregorian_ymd_Inr:
  assumes "1 \<le> jm" "jm \<le> 12" "jalali_to_gregorian_ymd (jy, jm, jd) = Inr d"
  shows "valid_date d" "toordinal d = jalali_ordinal jy jm jd"
  using gregorian_of_day_no_cases[of "jalali_ordinal jy jm jd - 584102"] assms(3)
  unfolding jalali_to_gregorian_ymd_form[OF assms(1,2)] by auto

section \<open>The candidate year\<close>

text \<open>
  The first day of the Jalali year \<open>gy - 621\<close> falls within the Gregorian year \<open>gy\<close>: the
  two calendars add 8 leap days in 33 years and 97 in 400, and the difference stays far
  below a year for a million years around 1600. So the year starts are dates of the host,
  \<open>is_jalali_leap\<close> is the length of the year, and one conditional decrement resolves the
  Jalali year of a date.
\<close>

lemma year_aligned_range:
  assumes "-1000000 \<le> gy" "gy \<le> 1000000"
  shows "year_aligned gy"
proof -
  define x where "x = gy - 1600"
  obtain q r where qr: "x div 33 = q" "x mod 33 = r" and l: "x = 33 * q + r" "0 \<le> r" "r < 33"
    by (rule divmod_int_obtain[of 33 x]) simp
  obtain e s where es: "(r + 3) div 4 = e" and el: "r + 3 = 4 * e + s" "0 \<le> s" "s < 4"
    by (rule divmod_int_obtain[of 4 "r + 3"]) simp
  obtain A a where A: "(gy - 1) div 4 = A" and Al: "gy - 1 = 4 * A + a" "0 \<le> a" "a < 4"
    by (rule divmod_int_obtain[of 4 "gy - 1"]) simp
  obtain B b where B: "(gy - 1) div 100 = B" and Bl: "gy - 1 = 100 * B + b" "0 \<le> b" "b < 100"
    by (rule divmod_int_obtain[of 100 "gy - 1"]) simp
  obtain C c where C: "(gy - 1) div 400 = C" and Cl: "gy - 1 = 400 * C + c" "0 \<le> c" "c < 400"
    by (rule divmod_int_obtain[of 400 "gy - 1"]) simp
  have j: "jalali_ordinal (gy - 621) 1 1 = 365 * gy + 8 * q + e + 102"
    by (simp add: jalali_ordinal_def jalali_year_day_no_def jalali_days_before_month_def
        Let_def x_def[symmetric] qr es) (simp add: x_def)
  have g: "days_before_year gy = 365 * gy - 365 + A - B + C"
    by (simp add: days_before_year_def Let_def A B C)
  have lo: "days_before_year gy < jalali_ordinal (gy - 621) 1 1"
    unfolding j g using l el Al Bl Cl assms x_def by linarith
  have "jalali_ordinal (gy - 621) 1 1 \<le> days_before_year gy + 365"
    unfolding j g using l el Al Bl Cl assms x_def by linarith
  then have hi: "jalali_ordinal (gy - 621) 1 1 \<le> days_before_year (gy + 1)"
    using dby_step[of gy] by (simp split: if_splits)
  show ?thesis unfolding year_aligned_def using lo hi by simp
qed

lemma jalali_start:
  assumes "-620 \<le> jy" "jy \<le> 9378"
  obtains s where "jalali_to_gregorian (JSeq [jy, 1, 1]) = Inr s" "valid_date s"
    "toordinal s = jalali_ordinal jy 1 1"
proof -
  have al: "year_aligned (jy + 621)" using assms by (intro year_aligned_range) simp_all
  have "days_before_year 1 \<le> days_before_year (jy + 621)" using assms by (intro dby_mono) simp
  moreover have "days_before_year (jy + 621 + 1) \<le> days_before_year 10000"
    using assms by (intro dby_mono) simp
  ultimately have "1 \<le> jalali_ordinal jy 1 1" "jalali_ordinal jy 1 1 \<le> 3652059"
    using al by (simp_all add: year_aligned_def dby_1 dby_10000)
  then show ?thesis
    using jalali_to_gregorian_ymd_ok[of 1 jy 1] that by (auto simp: jalali_to_gregorian_seq)
qed

lemma jalali_ordinal_start: "jalali_ordinal jy 1 1 = jalali_year_day_no jy + 584102"
  by (simp add: jalali_ordinal_def jalali_days_before_month_def)

lemma is_jalali_leap_form:
  assumes "-620 \<le> jy" "jy \<le> 9377"
  shows "is_jalali_leap jy = Inr (jalali_year_length jy = 366)"
proof -
  obtain s where s: "jalali_to_gregorian (JSeq [jy, 1, 1]) = Inr s"
      "toordinal s = jalali_ordinal jy 1 1"
    using jalali_start[of jy] assms by auto
  obtain s' where s': "jalali_to_gregorian (JSeq [jy + 1, 1, 1]) = Inr s'"
      "toordinal s' = jalali_ordinal (jy + 1) 1 1"
    using jalali_start[of "jy + 1"] assms by auto
  show ?thesis
    by (simp add: is_jalali_leap_def s s' days_between_def jalali_ordinal_start
        jalali_year_length_def)
qed

lemma jalali_month_length_form:
  assumes "-620 \<le> jy" "jy \<le> 9377"
  shows "jalali_month_length jy m =
     Inr (if m \<le> 6 then 31 else if m \<le> 11 then 30
          else if jalali_year_length jy = 366 then 30 else 29)"
  by (simp add: jalali_month_length_def is_jalali_leap_form[OF assms])

lemma resolve_jalali_year_ok:
  assumes v: "valid_date t" and y: "2 \<le> date_year t"
  obtains jy s where "resolve_jalali_year (date_year t) t = Inr (jy, s)"
    "jy = date_year t - 621 \<or> jy = date_year t - 622"
    "jalali_to_gregorian (JSeq [jy, 1, 1]) = Inr s" "valid_date s"
    "toordinal s = jalali_ordinal jy 1 1"
    "toordinal s \<le> toordinal t" "toordinal t < toordinal s + jalali_year_length jy"
proof -
  let ?gy = "date_year t"
  have hi: "?gy \<le> 9999" using v by (simp add: valid_date_def)
  obtain s0 where s0: "jalali_to_gregorian (JSeq [?gy - 621, 1, 1]) = Inr s0" "valid_date s0"
      "toordinal s0 = jalali_ordinal (?gy - 621) 1 1"
    using jalali_start[of "?gy - 621"] y hi by auto
  have tb: "days_before_year ?gy < toordinal t" "toordinal t \<le> days_before_year (?gy + 1)"
    using toordinal_year_bounds[OF v] by simp_all
  show ?thesis
  proof (cases "date_less t s0")
    case True
    obtain s1 where s1: "jalali_to_gregorian (JSeq [?gy - 621 - 1, 1, 1]) = Inr s1" "valid_date s1"
        "toordinal s1 = jalali_ordinal (?gy - 621 - 1) 1 1"
      using jalali_start[of "?gy - 621 - 1"] y hi by auto
    have al: "year_aligned (?gy - 1)" using y hi by (intro year_aligned_range) simp_all
    have lt: "toordinal t < toordinal s0" using True toordinal_less_iff[OF v s0(2)] by simp
    have e: "?gy - 621 - 1 = ?gy - 622" "?gy - 1 - 621 = ?gy - 622" "?gy - 622 + 1 = ?gy - 621"
      by simp_all
    show ?thesis
    proof (rule that[of "?gy - 622" s1])
      show "resolve_jalali_year ?gy t = Inr (?gy - 622, s1)"
        using True s0(1) s1(1) by (simp add: resolve_jalali_year_def Let_def)
      show "?gy - 622 = ?gy - 621 \<or> ?gy - 622 = ?gy - 622" by simp
      show "jalali_to_gregorian (JSeq [?gy - 622, 1, 1]) = Inr s1" using s1(1) by (simp add: e)
      show "valid_date s1" by (rule s1(2))
      show o: "toordinal s1 = jalali_ordinal (?gy - 622) 1 1" using s1(3) by (simp add: e)
      show "toordinal s1 \<le> toordinal t"
        using al tb(1) unfolding o year_aligned_def e by simp
      show "toordinal t < toordinal s1 + jalali_year_length (?gy - 622)"
        using lt unfolding o s0(3) jalali_ordinal_start jalali_year_length_def e by simp
    qed
  next
    case False
    have al: "year_aligned (?gy + 1)" using y hi by (intro year_aligned_range) simp_all
    have e: "?gy + 1 - 621 = ?gy - 621 + 1" by simp
    have ge: "toordinal s0 \<le> toordinal t" using False toordinal_less_iff[OF v s0(2)] by simp
    show ?thesis
    proof (rule that[of "?gy - 621" s0])
      show "resolve_jalali_year ?gy t = Inr (?gy - 621, s0)"
        using False s0(1) by (simp add: resolve_jalali_year_def Let_def)
      show "?gy - 621 = ?gy - 621 \<or> ?gy - 621 = ?gy - 622" by simp
      show "jalali_to_gregorian (JSeq [?gy - 621, 1, 1]) = Inr s0" by (rule s0(1))
      show "valid_date s0" by (rule s0(2))
      show "toordinal s0 = jalali_ordinal (?gy - 621) 1 1" by (rule s0(3))
      show "toordinal s0 \<le> toordinal t" by (rule ge)
      show "toordinal t < toordinal s0 + jalali_year_length (?gy - 621)"
        using al tb(2) unfolding s0(3) year_aligned_def e jalali_ordinal_start
          jalali_year_length_def by simp
    qed
  qed
qed

lemma jalali_month_day_form:
  assumes "0 \<le> days" "days < 366"
  obtains jm jd where "jalali_month_day days = (jm, jd)" "1 \<le> jm" "jm \<le> 12" "1 \<le> jd"
    "jd \<le> (if jm \<le> 6 then 31 else 30)" "jalali_days_before_month jm + (jd - 1) = days"
    "days \<le> 364 \<Longrightarrow> jm = 12 \<Longrightarrow> jd \<le> 29"
proof (cases "days < 186")
  case True
  obtain q r where qr: "days div 31 = q" "days mod 31 = r"
      and l: "days = 31 * q + r" "0 \<le> r" "r < 31"
    by (rule divmod_int_obtain[of 31 days]) simp
  have qb: "0 \<le> q" "q \<le> 5" using l True assms by linarith+
  show ?thesis
  proof (rule that[of "1 + q" "1 + r"])
    show "jalali_month_day days = (1 + q, 1 + r)" using True by (simp add: jalali_month_day_def qr)
    show "jalali_days_before_month (1 + q) + (1 + r - 1) = days"
      using qb l by (simp add: jalali_days_before_month_def)
  qed (use qb l in auto)
next
  case False
  obtain q r where qr: "(days - 186) div 30 = q" "(days - 186) mod 30 = r"
      and l: "days - 186 = 30 * q + r" "0 \<le> r" "r < 30"
    by (rule divmod_int_obtain[of 30 "days - 186"]) simp
  have qb: "0 \<le> q" "q \<le> 5" using l False assms by linarith+
  show ?thesis
  proof (rule that[of "7 + q" "1 + r"])
    show "jalali_month_day days = (7 + q, 1 + r)"
      using False by (simp add: jalali_month_day_def Let_def qr)
    show "jalali_days_before_month (7 + q) + (1 + r - 1) = days"
      using qb l by (simp add: jalali_days_before_month_def)
    show "1 + r \<le> 29" if "days \<le> 364" "7 + q = 12" using that l by linarith
  qed (use qb l in auto)
qed

section \<open>From a Gregorian date to the Jalali date and back\<close>

lemma gregorian_to_jalali_GDate:
  assumes "valid_date t"
  shows "gregorian_to_jalali (GDate t) =
     (case resolve_jalali_year (date_year t) t of
        Inl e \<Rightarrow> Inl e
      | Inr (jy, s) \<Rightarrow>
          (case jalali_month_day (days_between t s) of (jm, jd) \<Rightarrow> mk_JalaliDate jy jm jd))"
  using assms by (cases t) (clarsimp simp: gregorian_to_jalali_def mk_date_def)

lemma jalali_to_gregorian_JDate:
  "jalali_to_gregorian (JDate j) = jalali_to_gregorian_ymd (year j, month j, day j)"
  by (simp add: jalali_to_gregorian_def)

lemma gregorian_to_jalali_ok:
  assumes v: "valid_date t" and y: "2 \<le> date_year t" "date_year t \<le> 9998"
  obtains jy s jm jd where
    "resolve_jalali_year (date_year t) t = Inr (jy, s)"
    "jalali_to_gregorian (JSeq [jy, 1, 1]) = Inr s"
    "toordinal s \<le> toordinal t" "days_between t s < jalali_year_length jy"
    "jalali_month_day (days_between t s) = (jm, jd)"
    "1 \<le> jm" "jm \<le> 12" "1 \<le> jd"
    "jalali_month_length jy jm = Inr (if jm \<le> 6 then 31 else if jm \<le> 11 then 30
        else if jalali_year_length jy = 366 then 30 else 29)"
    "jd \<le> (if jm \<le> 6 then 31 else if jm \<le> 11 then 30
        else if jalali_year_length jy = 366 then 30 else 29)"
    "mk_JalaliDate jy jm jd = Inr \<lparr>year = jy, month = jm, day = jd\<rparr>"
    "gregorian_to_jalali (GDate t) = Inr \<lparr>year = jy, month = jm, day = jd\<rparr>"
    "jalali_ordinal jy jm jd = toordinal t"
proof -
  obtain jy s where r: "resolve_jalali_year (date_year t) t = Inr (jy, s)"
    and jy: "jy = date_year t - 621 \<or> jy = date_year t - 622"
    and s: "jalali_to_gregorian (JSeq [jy, 1, 1]) = Inr s" "valid_date s"
      "toordinal s = jalali_ordinal jy 1 1"
    and o: "toordinal s \<le> toordinal t" "toordinal t < toordinal s + jalali_year_length jy"
    by (rule resolve_jalali_year_ok[OF v y(1)]) blast
  define days where "days = days_between t s"
  have d: "0 \<le> days" "days < jalali_year_length jy"
    using o by (simp_all add: days_def days_between_def)
  have d366: "days < 366" using d(2) jalali_year_length_cases[of jy] by linarith
  obtain jm jd where md: "jalali_month_day days = (jm, jd)"
    and b: "1 \<le> jm" "jm \<le> 12" "1 \<le> jd" "jd \<le> (if jm \<le> 6 then 31 else 30)"
    and e: "jalali_days_before_month jm + (jd - 1) = days"
    and l: "days \<le> 364 \<Longrightarrow> jm = 12 \<Longrightarrow> jd \<le> 29"
    by (rule jalali_month_day_form[OF d(1) d366]) blast
  have jr: "-620 \<le> jy" "jy \<le> 9377" using jy y by auto
  let ?L = "if jm \<le> 6 then 31 else if jm \<le> 11 then 30
        else if jalali_year_length jy = 366 then 30 else 29"
  have ml: "jalali_month_length jy jm = Inr ?L" by (rule jalali_month_length_form[OF jr])
  have jdL: "jd \<le> ?L"
  proof (cases "jm = 12 \<and> jalali_year_length jy \<noteq> 366")
    case True
    then have "days \<le> 364" using d(2) jalali_year_length_cases[of jy] by linarith
    then show ?thesis using l True by simp
  next
    case False
    then show ?thesis using b by (auto split: if_splits)
  qed
  have mk: "mk_JalaliDate jy jm jd = Inr \<lparr>year = jy, month = jm, day = jd\<rparr>"
    unfolding mk_JalaliDate_def ml using b jdL by simp
  have g: "gregorian_to_jalali (GDate t) = Inr \<lparr>year = jy, month = jm, day = jd\<rparr>"
    unfolding gregorian_to_jalali_GDate[OF v] r using md mk by (simp add: days_def)
  have ord: "jalali_ordinal jy jm jd = toordinal t"
    using e s(3) by (simp add: jalali_ordinal_def days_def days_between_def
        jalali_days_before_month_def)
  show ?thesis
    using that[OF r s(1) o(1) _ _ b(1,2,3) ml jdL mk g ord] d(2) md by (simp add: days_def)
qed

lemma gregorian_roundtrip:
  assumes v: "valid_date t" and y: "2 \<le> date_year t" "date_year t \<le> 9998"
  shows "\<exists>j. gregorian_to_jalali (GDate t) = Inr j \<and> jalali_to_gregorian (JDate j) = Inr t"
proof -
  obtain jy jm jd where b: "1 \<le> jm" "jm \<le> 12"
    and g: "gregorian_to_jalali (GDate t) = Inr \<lparr>year = jy, month = jm, day = jd\<rparr>"
    and ord: "jalali_ordinal jy jm jd = toordinal t"
    by (rule gregorian_to_jalali_ok[OF v y]) blast
  obtain d where d: "jalali_to_gregorian_ymd (jy, jm, jd) = Inr d" "valid_date d"
      "toordinal d = jalali_ordinal jy jm jd"
    using toordinal_range[OF v] unfolding ord[symmetric] by (rule jalali_to_gregorian_ymd_ok[OF b, of jy jd]) blast
  have "d = t" using toordinal_inj[OF d(2) v] d(3) ord by simp
  then show ?thesis using g d(1) by (simp add: jalali_to_gregorian_JDate)
qed

section \<open>From a Jalali date to the Gregorian date and back\<close>

lemma is_jalali_leap_Inr:
  assumes "is_jalali_leap jy = Inr b"
  shows "b \<longleftrightarrow> jalali_year_length jy = 366"
proof -
  obtain s where s: "jalali_to_gregorian_ymd (jy, 1, 1) = Inr s"
    using assms by (auto simp: is_jalali_leap_def jalali_to_gregorian_seq split: sum.splits)
  obtain s' where s': "jalali_to_gregorian_ymd (jy + 1, 1, 1) = Inr s'"
    using assms by (auto simp: is_jalali_leap_def jalali_to_gregorian_seq split: sum.splits)
  have o: "toordinal s = jalali_ordinal jy 1 1" "toordinal s' = jalali_ordinal (jy + 1) 1 1"
    using jalali_to_gregorian_ymd_Inr(2)[OF _ _ s] jalali_to_gregorian_ymd_Inr(2)[OF _ _ s']
    by simp_all
  show ?thesis
    using assms
    by (simp add: is_jalali_leap_def jalali_to_gregorian_seq s s' days_between_def o
        jalali_ordinal_start jalali_year_length_def)
qed

lemma jalali_month_length_Inr:
  assumes "jalali_month_length jy jm = Inr L"
  shows "L = (if jm \<le> 6 then 31 else if jm \<le> 11 then 30
              else if jalali_year_length jy = 366 then 30 else 29)"
  using assms is_jalali_leap_Inr[of jy]
  by (auto simp: jalali_month_length_def split: if_splits sum.splits)

lemma mk_JalaliDate_Inr:
  assumes "mk_JalaliDate jy jm jd = Inr j"
  shows "j = \<lparr>year = jy, month = jm, day = jd\<rparr>" "1 \<le> jm" "jm \<le> 12" "1 \<le> jd"
    "jd \<le> (if jm \<le> 6 then 31 else if jm \<le> 11 then 30
              else if jalali_year_length jy = 366 then 30 else 29)"
  using assms jalali_month_length_Inr[of jy jm]
  by (auto simp: mk_JalaliDate_def split: if_splits sum.splits)

lemma jalali_days_before_month_next:
  assumes "1 \<le> jm" "jm \<le> 11"
  shows "jalali_days_before_month (jm + 1)
           = jalali_days_before_month jm + (if jm \<le> 6 then 31 else 30)"
  using assms by (auto simp: jalali_days_before_month_def)

lemma jalali_days_before_month_mono:
  assumes "1 \<le> m" "m \<le> n" "n \<le> 12"
  shows "jalali_days_before_month m \<le> jalali_days_before_month n"
  using assms by (auto simp: jalali_days_before_month_def)

lemma jalali_md_less:
  assumes "1 \<le> jm" "jm < jm'" "jm' \<le> 12" "jd \<le> (if jm \<le> 6 then 31 else 30)" "1 \<le> jd'"
  shows "jalali_days_before_month jm + (jd - 1) < jalali_days_before_month jm' + (jd' - 1)"
proof -
  have "jalali_days_before_month (jm + 1) \<le> jalali_days_before_month jm'"
    using assms by (intro jalali_days_before_month_mono) simp_all
  then show ?thesis
    using jalali_days_before_month_next[of jm] assms by (simp split: if_splits)
qed

lemma jalali_md_unique:
  assumes "1 \<le> jm" "jm \<le> 12" "1 \<le> jd" "jd \<le> (if jm \<le> 6 then 31 else 30)"
    and "1 \<le> jm'" "jm' \<le> 12" "1 \<le> jd'" "jd' \<le> (if jm' \<le> 6 then 31 else 30)"
    and "jalali_days_before_month jm + (jd - 1) = jalali_days_before_month jm' + (jd' - 1)"
  shows "jm = jm' \<and> jd = jd'"
proof -
  have "\<not> jm < jm'" using jalali_md_less[of jm jm' jd jd'] assms by auto
  moreover have "\<not> jm' < jm" using jalali_md_less[of jm' jm jd' jd] assms by auto
  ultimately have "jm = jm'" by simp
  then show ?thesis using assms(9) by simp
qed

lemma jalali_roundtrip:
  assumes mk: "mk_JalaliDate jy jm jd = Inr j"
    and g: "jalali_to_gregorian (JDate j) = Inr g"
    and y: "2 \<le> date_year g" "date_year g \<le> 9998"
  shows "gregorian_to_jalali (GDate g) = Inr j"
proof -
  note j = mk_JalaliDate_Inr[OF mk]
  let ?L = "if jm \<le> 6 then 31 else if jm \<le> 11 then (30::int)
              else if jalali_year_length jy = 366 then 30 else 29"
  have gy: "jalali_to_gregorian_ymd (jy, jm, jd) = Inr g"
    using g by (simp add: jalali_to_gregorian_JDate j(1))
  have v: "valid_date g" and og: "toordinal g = jalali_ordinal jy jm jd"
    using jalali_to_gregorian_ymd_Inr[OF j(2,3) gy] by simp_all
  define days where "days = jalali_days_before_month jm + (jd - 1)"
  have d0: "0 \<le> days"
    using jalali_days_before_month_mono[of 1 jm] j(2,3,4)
    by (simp add: days_def jalali_days_before_month_def)
  have dl: "days < jalali_year_length jy"
  proof (cases "jm = 12")
    case True
    then show ?thesis
      using j(5) jalali_year_length_cases[of jy]
      by (auto simp: days_def jalali_days_before_month_def split: if_splits)
  next
    case False
    then have "jm \<le> 11" using j(3) by simp
    then have "days \<le> 335"
      using j(2,5) by (auto simp: days_def jalali_days_before_month_def split: if_splits)
    then show ?thesis using jalali_year_length_cases[of jy] by linarith
  qed
  have og': "toordinal g = jalali_year_day_no jy + 584102 + days"
    by (simp add: og jalali_ordinal_def days_def)
  obtain jy' s jm' jd' where
    r: "resolve_jalali_year (date_year g) g = Inr (jy', s)"
    and s: "jalali_to_gregorian (JSeq [jy', 1, 1]) = Inr s"
    and o: "toordinal s \<le> toordinal g" "days_between g s < jalali_year_length jy'"
    and md: "jalali_month_day (days_between g s) = (jm', jd')"
    and b: "1 \<le> jm'" "jm' \<le> 12" "1 \<le> jd'"
    and jl: "jd' \<le> (if jm' \<le> 6 then 31 else if jm' \<le> 11 then 30
        else if jalali_year_length jy' = 366 then 30 else 29)"
    and gj: "gregorian_to_jalali (GDate g) = Inr \<lparr>year = jy', month = jm', day = jd'\<rparr>"
    and ord: "jalali_ordinal jy' jm' jd' = toordinal g"
    by (rule gregorian_to_jalali_ok[OF v y]) blast
  have os: "toordinal s = jalali_year_day_no jy' + 584102"
    using jalali_to_gregorian_ymd_Inr(2)[of 1 jy' 1 s] s
    by (simp add: jalali_to_gregorian_seq jalali_ordinal_start)
  have lo': "jalali_year_day_no jy' \<le> jalali_year_day_no jy + days"
    using o(1) unfolding os og' by simp
  have hi': "jalali_year_day_no jy + days < jalali_year_day_no jy' + jalali_year_length jy'"
    using o(2) unfolding days_between_def os og' by simp
  have "\<not> jy < jy'"
    using jalali_year_day_no_strict[of jy jy'] lo' dl by auto
  moreover have "\<not> jy' < jy"
    using jalali_year_day_no_strict[of jy' jy] hi' d0 by auto
  ultimately have jy: "jy' = jy" by simp
  have e: "jalali_days_before_month jm + (jd - 1) = jalali_days_before_month jm' + (jd' - 1)"
    using ord og by (simp add: jalali_ordinal_def jy)
  have "jm = jm' \<and> jd = jd'"
    using j(2,3,4,5) b jl by (intro jalali_md_unique e) (auto split: if_splits)
  then show ?thesis using gj jy j(1) by simp
qed

section \<open>The claims about the converter\<close>

text \<open>
  Claim C3. The known fixed points: 2024-03-20 is 1403-01-01, 2023-03-21 is 1402-01-01 and
  2017-01-01 is 1395-10-12, in both directions; the Jalali years 1399 and 1403 are leap
  and 1400 is not.
\<close>

theorem known_values_C3:
  "gregorian_to_jalali (GDate (Date 2024 3 20)) = Inr \<lparr>year = 1403, month = 1, day = 1\<rparr>
   \<and> gregorian_to_jalali (GDate (Date 2023 3 21)) = Inr \<lparr>year = 1402, month = 1, day = 1\<rparr>
   \<and> gregorian_to_jalali (GDate (Date 2017 1 1)) = Inr \<lparr>year = 1395, month = 10, day = 12\<rparr>
   \<and> jalali_to_gregorian (JSeq [1403, 1, 1]) = Inr (Date 2024 3 20)
   \<and> jalali_to_gregorian (JSeq [1402, 1, 1]) = Inr (Date 2023 3 21)
   \<and> jalali_to_gregorian (JSeq [1395, 10, 12]) = Inr (Date 2017 1 1)
   \<and> gregorian_to_jalali (GStr ''2023-03-21'') = Inr \<lparr>year = 1402, month = 1, day = 1\<rparr>
   \<and> gregorian_to_jalali (GSeq [2017, 1, 1]) = Inr \<lparr>year = 1395, month = 10, day = 12\<rparr>
   \<and> jalali_to_gregorian (JDate \<lparr>year = 1403, month = 1, day = 1\<rparr>) = Inr (Date 2024 3 20)
   \<and> jalali_to_gregorian (JStr ''1402-01-01'') = Inr (Date 2023 3 21)
   \<and> is_jalali_leap 1399 = Inr True
   \<and> is_jalali_leap 1403 = Inr True
   \<and> is_jalali_leap 1400 = Inr False"
  by code_simp

text \<open>
  Claim C1. A valid Gregorian date of the years 1800 to 2200 converts to a Jalali date
  that converts back to it; and a valid Jalali date whose Gregorian image lies in those
  years is what its image converts to.
\<close>

theorem roundtrip_C1:
  "(valid_date d \<and> 1800 \<le> date_year d \<and> date_year d \<le> 2200 \<longrightarrow>
      (\<exists>j. gregorian_to_jalali (GDate d) = Inr j \<and> jalali_to_gregorian (JDate j) = Inr d))
   \<and> (mk_JalaliDate (year j) (month j) (day j) = Inr j
        \<and> jalali_to_gregorian (JDate j) = Inr g
        \<and> 1800 \<le> date_year g \<and> date_year g \<le> 2200 \<longrightarrow>
      gregorian_to_jalali (GDate g) = Inr j)"
proof (intro conjI impI)
  assume "valid_date d \<and> 1800 \<le> date_year d \<and> date_year d \<le> 2200"
  then show "\<exists>j. gregorian_to_jalali (GDate d) = Inr j \<and> jalali_to_gregorian (JDate j) = Inr d"
    by (intro gregorian_roundtrip) simp_all
next
  assume a: "mk_JalaliDate (year j) (month j) (day j) = Inr j
    \<and> jalali_to_gregorian (JDate j) = Inr g \<and> 1800 \<le> date_year g \<and> date_year g \<le> 2200"
  show "gregorian_to_jalali (GDate g) = Inr j"
    by (rule jalali_roundtrip[of "year j" "month j" "day j"]) (use a in simp_all)
qed

theorem roundtrip_C1_witness:
  "valid_date (Date 2000 2 29)
   \<and> (\<exists>j. gregorian_to_jalali (GDate (Date 2000 2 29)) = Inr j
          \<and> jalali_to_gregorian (JDate j) = Inr (Date 2000 2 29))
   \<and> mk_JalaliDate 1378 12 10 = Inr \<lparr>year = 1378, month = 12, day = 10\<rparr>
   \<and> jalali_to_gregorian (JDate \<lparr>year = 1378, month = 12, day = 10\<rparr>) = Inr (Date 2000 2 29)
   \<and> gregorian_to_jalali (GDate (Date 2000 2 29)) = Inr \<lparr>year = 1378, month = 12, day = 10\<rparr>"
proof -
  have v: "valid_date (Date 2000 2 29)" by code_simp
  have r: "1800 \<le> date_year (Date 2000 2 29) \<and> date_year (Date 2000 2 29) \<le> 2200" by simp
  have m: "mk_JalaliDate 1378 12 10 = Inr \<lparr>year = 1378, month = 12, day = 10\<rparr>" by code_simp
  have g: "jalali_to_gregorian (JDate \<lparr>year = 1378, month = 12, day = 10\<rparr>) = Inr (Date 2000 2 29)"
    by code_simp
  show ?thesis
    using roundtrip_C1[of "Date 2000 2 29" "\<lparr>year = 1378, month = 12, day = 10\<rparr>" "Date 2000 2 29"]
      v r m g by simp
qed

text \<open>
  Claim C2. For a Jalali year \<open>y\<close> whose first day and whose successor's first day the host
  date type can hold (the years \<open>-620\<close> to \<open>9377\<close>, which contain the supported range),
  \<open>is_jalali_leap y\<close> returns, and it is true exactly when month 12 of \<open>y\<close> has 30 days
  (29 otherwise), exactly when the first days of \<open>y\<close> and \<open>y + 1\<close> are 366 days apart
  (365 otherwise).
\<close>

theorem leap_consistency_C2:
  "-620 \<le> y \<and> y \<le> 9377 \<longrightarrow>
     (\<exists>s n b. jalali_to_gregorian (JSeq [y, 1, 1]) = Inr s
        \<and> jalali_to_gregorian (JSeq [y + 1, 1, 1]) = Inr n
        \<and> is_jalali_leap y = Inr b
        \<and> (b \<longleftrightarrow> jalali_month_length y 12 = Inr 30)
        \<and> (\<not> b \<longleftrightarrow> jalali_month_length y 12 = Inr 29)
        \<and> (b \<longleftrightarrow> days_between n s = 366)
        \<and> (\<not> b \<longleftrightarrow> days_between n s = 365))"
proof
  assume a: "-620 \<le> y \<and> y \<le> 9377"
  obtain s where s: "jalali_to_gregorian (JSeq [y, 1, 1]) = Inr s"
      "toordinal s = jalali_ordinal y 1 1"
    using jalali_start[of y] a by auto
  obtain n where n: "jalali_to_gregorian (JSeq [y + 1, 1, 1]) = Inr n"
      "toordinal n = jalali_ordinal (y + 1) 1 1"
    using jalali_start[of "y + 1"] a by auto
  have l: "is_jalali_leap y = Inr (jalali_year_length y = 366)"
    using a by (intro is_jalali_leap_form) simp_all
  have d: "days_between n s = jalali_year_length y"
    by (simp add: days_between_def s n jalali_ordinal_start jalali_year_length_def)
  have m: "jalali_month_length y 12 = Inr (if jalali_year_length y = 366 then 30 else 29)"
    by (simp add: jalali_month_length_def l)
  show "\<exists>s n b. jalali_to_gregorian (JSeq [y, 1, 1]) = Inr s
        \<and> jalali_to_gregorian (JSeq [y + 1, 1, 1]) = Inr n
        \<and> is_jalali_leap y = Inr b
        \<and> (b \<longleftrightarrow> jalali_month_length y 12 = Inr 30)
        \<and> (\<not> b \<longleftrightarrow> jalali_month_length y 12 = Inr 29)
        \<and> (b \<longleftrightarrow> days_between n s = 366)
        \<and> (\<not> b \<longleftrightarrow> days_between n s = 365)"
    apply (rule exI[of _ s], rule exI[of _ n], rule exI[of _ "jalali_year_length y = 366"])
    using s(1) n(1) l d m jalali_year_length_cases[of y] by auto
qed

theorem leap_consistency_C2_witness:
  "is_jalali_leap 1403 = Inr True \<and> jalali_month_length 1403 12 = Inr 30
   \<and> is_jalali_leap 1400 = Inr False \<and> jalali_month_length 1400 12 = Inr 29
   \<and> (\<exists>s n. jalali_to_gregorian (JSeq [1403, 1, 1]) = Inr s
         \<and> jalali_to_gregorian (JSeq [1403 + 1, 1, 1]) = Inr n \<and> days_between n s = 366)
   \<and> (\<exists>s n. jalali_to_gregorian (JSeq [1400, 1, 1]) = Inr s
         \<and> jalali_to_gregorian (JSeq [1400 + 1, 1, 1]) = Inr n \<and> days_between n s = 365)"
proof -
  have a: "is_jalali_leap 1403 = Inr True" "is_jalali_leap 1400 = Inr False" by code_simp+
  have r: "(-620::int) \<le> 1403 \<and> (1403::int) \<le> 9377" "(-620::int) \<le> 1400 \<and> (1400::int) \<le> 9377"
    by simp_all
  from leap_consistency_C2[of 1403] r(1) a(1) have 1:
    "jalali_month_length 1403 12 = Inr 30
     \<and> (\<exists>s n. jalali_to_gregorian (JSeq [1403, 1, 1]) = Inr s
         \<and> jalali_to_gregorian (JSeq [1403 + 1, 1, 1]) = Inr n \<and> days_between n s = 366)"
    by auto
  from leap_consistency_C2[of 1400] r(2) a(2) have 2:
    "jalali_month_length 1400 12 = Inr 29
     \<and> (\<exists>s n. jalali_to_gregorian (JSeq [1400, 1, 1]) = Inr s
         \<and> jalali_to_gregorian (JSeq [1400 + 1, 1, 1]) = Inr n \<and> days_between n s = 365)"
    by auto
  show ?thesis using a 1 2 by blast
qed







lemma add_jalali_months_Inl: "add_jalali_months k ls acc = Inl e \<Longrightarrow> e = IndexError"
  by (induction k ls acc rule: add_jalali_months.induct) auto

lemma py_int_Inl: "py_int s = Inl e \<Longrightarrow> e = ParseError"
  by (auto simp: py_int_def split: list.splits if_splits option.splits)

lemma coerce_tokens_Inl: "coerce_tokens s = Inl e \<Longrightarrow> e = FormatError \<or> e = ParseError"
  unfolding coerce_tokens_def
  by (auto split: list.splits sum.splits dest: py_int_Inl)

lemma coerce_seq_Inl: "coerce_seq xs = Inl e \<Longrightarrow> e = TypeError"
  by (auto simp: coerce_seq_def split: list.splits)

lemma gregorian_of_day_no_not_internal:
  "gregorian_of_day_no n \<noteq> Inl InternalConsistencyError"
  by (rule gregorian_of_day_no_cases[of n]) simp_all

lemma coerce_jalali_not_internal: "coerce_jalali v \<noteq> Inl InternalConsistencyError"
proof (cases v)
  case (JDate j)
  then show ?thesis by simp
next
  case (JStr s)
  then show ?thesis using coerce_tokens_Inl[of s InternalConsistencyError] by auto
next
  case (JSeq xs)
  then show ?thesis using coerce_seq_Inl[of xs InternalConsistencyError] by auto
qed

text \<open>
  Claim C8. Whatever day number enters the Gregorian decomposition, the day left for the
  month loop is at least 0 and less than the length of the resolved year (366 when it is
  leap, 365 otherwise), the flag \<open>leap\<close> is the leap status of that year, and the loop
  stops at one of the 12 months. So \<open>jalali_to_gregorian\<close> never takes the defensive
  branch; in particular every valid Jalali triple reaches the loop, which matches.
\<close>

theorem month_loop_total_C8:
  "(case gregorian_year_split g_day_no of (gy, r, leap) \<Rightarrow>
       0 \<le> r \<and> r < (if is_gregorian_leap gy then 366 else 365) \<and> leap = is_gregorian_leap gy
       \<and> (\<exists>gm gd. gregorian_month_loop 0 GREGORIAN_MONTH_LENGTHS leap r = Some (gm, gd)
             \<and> 1 \<le> gm \<and> gm \<le> 12 \<and> 1 \<le> gd))
   \<and> gregorian_of_day_no j_day_no \<noteq> Inl InternalConsistencyError
   \<and> jalali_to_gregorian v \<noteq> Inl InternalConsistencyError
   \<and> (mk_JalaliDate jy jm jd = Inr j \<longrightarrow>
        (\<exists>n gy r leap gm gd. jalali_day_no jy jm jd = Inr n
           \<and> gregorian_year_split (n + 79) = (gy, r, leap)
           \<and> gregorian_month_loop 0 GREGORIAN_MONTH_LENGTHS leap r = Some (gm, gd)))"
proof (intro conjI impI)
  obtain gy r leap where sp: "gregorian_year_split g_day_no = (gy, r, leap)"
    by (cases "gregorian_year_split g_day_no") auto
  have c: "0 \<le> r" "r < (if leap then 366 else 365)" "leap \<longleftrightarrow> is_gregorian_leap gy"
    using year_split_correct[of g_day_no] unfolding sp by (auto split: if_splits)
  have "\<exists>gm gd. gregorian_month_loop 0 GREGORIAN_MONTH_LENGTHS leap r = Some (gm, gd)
      \<and> 1 \<le> gm \<and> gm \<le> 12 \<and> 1 \<le> gd"
    using month_loop_form[of r gy] c by blast
  then show "case gregorian_year_split g_day_no of (gy, r, leap) \<Rightarrow>
       0 \<le> r \<and> r < (if is_gregorian_leap gy then 366 else 365) \<and> leap = is_gregorian_leap gy
       \<and> (\<exists>gm gd. gregorian_month_loop 0 GREGORIAN_MONTH_LENGTHS leap r = Some (gm, gd)
             \<and> 1 \<le> gm \<and> gm \<le> 12 \<and> 1 \<le> gd)"
    unfolding sp using c by simp
next
  show "gregorian_of_day_no j_day_no \<noteq> Inl InternalConsistencyError"
    by (rule gregorian_of_day_no_not_internal)
next
  have "jalali_to_gregorian_ymd t \<noteq> Inl InternalConsistencyError" for t
  proof (cases t)
    case (fields a b c)
    show ?thesis
    proof (cases "jalali_day_no a b c")
      case (Inl e)
      then have "e = IndexError"
        by (auto simp: jalali_day_no_def Let_def split: sum.splits dest: add_jalali_months_Inl)
      then show ?thesis using Inl fields by (simp add: jalali_to_gregorian_ymd_def)
    next
      case (Inr n)
      then show ?thesis
        using fields by (simp add: jalali_to_gregorian_ymd_def gregorian_of_day_no_not_internal)
    qed
  qed
  then show "jalali_to_gregorian v \<noteq> Inl InternalConsistencyError"
    using coerce_jalali_not_internal[of v]
    by (auto simp: jalali_to_gregorian_def split: sum.splits)
next
  assume mk: "mk_JalaliDate jy jm jd = Inr j"
  note b = mk_JalaliDate_Inr(2,3)[OF mk]
  let ?n = "jalali_year_day_no jy + jalali_days_before_month jm + (jd - 1)"
  obtain gy r leap where sp: "gregorian_year_split (?n + 79) = (gy, r, leap)"
    by (cases "gregorian_year_split (?n + 79)") auto
  have c: "0 \<le> r" "r < (if leap then 366 else 365)" "leap \<longleftrightarrow> is_gregorian_leap gy"
    using year_split_correct[of "?n + 79"] unfolding sp by (auto split: if_splits)
  obtain gm gd where "gregorian_month_loop 0 GREGORIAN_MONTH_LENGTHS leap r = Some (gm, gd)"
    using month_loop_form[of r gy] c by blast
  then show "\<exists>n gy r leap gm gd. jalali_day_no jy jm jd = Inr n
           \<and> gregorian_year_split (n + 79) = (gy, r, leap)
           \<and> gregorian_month_loop 0 GREGORIAN_MONTH_LENGTHS leap r = Some (gm, gd)"
    using jalali_day_no_form[OF b, of jy jd] sp by blast
qed

theorem month_loop_total_C8_witness:
  "mk_JalaliDate 1403 12 30 = Inr \<lparr>year = 1403, month = 12, day = 30\<rparr>
   \<and> (\<exists>n gy r leap gm gd. jalali_day_no 1403 12 30 = Inr n
           \<and> gregorian_year_split (n + 79) = (gy, r, leap)
           \<and> gregorian_month_loop 0 GREGORIAN_MONTH_LENGTHS leap r = Some (gm, gd))"
proof -
  have m: "mk_JalaliDate 1403 12 30 = Inr \<lparr>year = 1403, month = 12, day = 30\<rparr>" by code_simp
  show ?thesis
    using month_loop_total_C8[where jy=1403 and jm=12 and jd=30
        and j="\<lparr>year = 1403, month = 12, day = 30\<rparr>"] m
    by blast
qed

text \<open>
  Claim C9. For a valid Gregorian date \<open>t\<close> of the years 1800 to 2200, the year that
  \<open>gregorian_to_jalali\<close> resolves is the candidate \<open>gy - 621\<close> or the one before it, its
  first day is not after \<open>t\<close>, and the day offset lies in \<open>0..365\<close>; the month and the day
  computed from the offset are within the Jalali month, so the \<open>JalaliDate\<close> is built and
  returned.
\<close>

theorem single_decrement_C9:
  "valid_date t \<and> 1800 \<le> date_year t \<and> date_year t \<le> 2200 \<longrightarrow>
     (\<exists>jy s jm jd L. resolve_jalali_year (date_year t) t = Inr (jy, s)
        \<and> (jy = date_year t - 621 \<or> jy = date_year t - 621 - 1)
        \<and> jalali_to_gregorian (JSeq [jy, 1, 1]) = Inr s
        \<and> \<not> date_less t s \<and> 0 \<le> days_between t s \<and> days_between t s \<le> 365
        \<and> jalali_month_day (days_between t s) = (jm, jd)
        \<and> 1 \<le> jm \<and> jm \<le> 12 \<and> jalali_month_length jy jm = Inr L \<and> 1 \<le> jd \<and> jd \<le> L
        \<and> mk_JalaliDate jy jm jd = Inr \<lparr>year = jy, month = jm, day = jd\<rparr>
        \<and> gregorian_to_jalali (GDate t) = Inr \<lparr>year = jy, month = jm, day = jd\<rparr>)"
proof
  assume a: "valid_date t \<and> 1800 \<le> date_year t \<and> date_year t \<le> 2200"
  then have v: "valid_date t" and y: "2 \<le> date_year t" "date_year t \<le> 9998" by simp_all
  let ?L = "\<lambda>jy jm. if jm \<le> 6 then 31 else if jm \<le> 11 then (30::int)
        else if jalali_year_length jy = 366 then 30 else 29"
  obtain jy s jm jd where
    r: "resolve_jalali_year (date_year t) t = Inr (jy, s)"
    and s: "jalali_to_gregorian (JSeq [jy, 1, 1]) = Inr s"
    and o: "toordinal s \<le> toordinal t" "days_between t s < jalali_year_length jy"
    and md: "jalali_month_day (days_between t s) = (jm, jd)"
    and b: "1 \<le> jm" "jm \<le> 12" "1 \<le> jd"
    and ml: "jalali_month_length jy jm = Inr (?L jy jm)"
    and jl: "jd \<le> ?L jy jm"
    and mk: "mk_JalaliDate jy jm jd = Inr \<lparr>year = jy, month = jm, day = jd\<rparr>"
    and gj: "gregorian_to_jalali (GDate t) = Inr \<lparr>year = jy, month = jm, day = jd\<rparr>"
    by (rule gregorian_to_jalali_ok[OF v y]) blast
  obtain jy0 s0 where r0: "resolve_jalali_year (date_year t) t = Inr (jy0, s0)"
    and c: "jy0 = date_year t - 621 \<or> jy0 = date_year t - 622"
    by (rule resolve_jalali_year_ok[OF v y(1)]) blast
  have jy: "jy = date_year t - 621 \<or> jy = date_year t - 621 - 1" using r r0 c by auto
  have vs: "valid_date s"
    using jalali_to_gregorian_ymd_Inr(1)[of 1 jy 1 s] s by (simp add: jalali_to_gregorian_seq)
  have nl: "\<not> date_less t s" using toordinal_less_iff[OF v vs] o(1) by simp
  have d0: "0 \<le> days_between t s" using o(1) by (simp add: days_between_def)
  have d1: "days_between t s \<le> 365" using o(2) jalali_year_length_cases[of jy] by linarith
  show "\<exists>jy s jm jd L. resolve_jalali_year (date_year t) t = Inr (jy, s)
        \<and> (jy = date_year t - 621 \<or> jy = date_year t - 621 - 1)
        \<and> jalali_to_gregorian (JSeq [jy, 1, 1]) = Inr s
        \<and> \<not> date_less t s \<and> 0 \<le> days_between t s \<and> days_between t s \<le> 365
        \<and> jalali_month_day (days_between t s) = (jm, jd)
        \<and> 1 \<le> jm \<and> jm \<le> 12 \<and> jalali_month_length jy jm = Inr L \<and> 1 \<le> jd \<and> jd \<le> L
        \<and> mk_JalaliDate jy jm jd = Inr \<lparr>year = jy, month = jm, day = jd\<rparr>
        \<and> gregorian_to_jalali (GDate t) = Inr \<lparr>year = jy, month = jm, day = jd\<rparr>"
    apply (rule exI[of _ jy], rule exI[of _ s], rule exI[of _ jm], rule exI[of _ jd],
        rule exI[of _ "?L jy jm"])
    using r jy s nl d0 d1 md b ml jl mk gj by blast
qed

theorem single_decrement_C9_witness:
  "valid_date (Date 2024 3 19)
   \<and> resolve_jalali_year 2024 (Date 2024 3 19) = Inr (1402, Date 2023 3 21)
   \<and> days_between (Date 2024 3 19) (Date 2023 3 21) = 364
   \<and> jalali_month_day 364 = (12, 29)
   \<and> jalali_month_length 1402 12 = Inr 29
   \<and> gregorian_to_jalali (GDate (Date 2024 3 19)) = Inr \<lparr>year = 1402, month = 12, day = 29\<rparr>"
proof -
  have v: "valid_date (Date 2024 3 19)" by code_simp
  have r: "resolve_jalali_year 2024 (Date 2024 3 19) = Inr (1402, Date 2023 3 21)" by code_simp
  have d: "days_between (Date 2024 3 19) (Date 2023 3 21) = 364" by code_simp
  have m: "jalali_month_day 364 = (12, 29)" by code_simp
  from single_decrement_C9[of "Date 2024 3 19"] v
  obtain jy s jm jd L where
    "resolve_jalali_year (date_year (Date 2024 3 19)) (Date 2024 3 19) = Inr (jy, s)"
    "jalali_month_day (days_between (Date 2024 3 19) s) = (jm, jd)"
    "jalali_month_length jy jm = Inr L" "jd \<le> L"
    "gregorian_to_jalali (GDate (Date 2024 3 19)) = Inr \<lparr>year = jy, month = jm, day = jd\<rparr>"
    by auto
  moreover have "jalali_month_length 1402 12 = Inr 29" by code_simp
  ultimately show ?thesis using v r d m by simp
qed

section \<open>The preference helpers: what the setters leave behind\<close>


lemma require_known:
  "require_calendar (Some ''gregorian'') = Inr ''gregorian''"
  "require_calendar (Some ''jalali'') = Inr ''jalali''"
  by code_simp+

lemma normalize_calendar_form:
  "normalize_calendar v =
     (if acceptable_calendar v then Some (lower (strip (case v of Some s \<Rightarrow> s | None \<Rightarrow> []))) else None)"
  by (auto simp: normalize_calendar_def acceptable_calendar_def VALID_CALENDARS_def Let_def
      split: option.splits)

lemma require_calendar_form:
  "require_calendar v =
     (if acceptable_calendar v then Inr (lower (strip (case v of Some s \<Rightarrow> s | None \<Rightarrow> [])))
      else Inl ValidationError)"
  by (auto simp: require_calendar_def normalize_calendar_form truthy_def py_or_def Let_def
      acceptable_calendar_def split: option.splits)

lemma set_system_calendar_form:
  "set_system_calendar c p =
     (case require_calendar c of
        Inl e \<Rightarrow> (p, Inl e)
      | Inr selected \<Rightarrow>
          (fst (write_system_value selected p),
           Inr (resolve_calendar None (fst (write_system_value selected p)))))"
  by (auto simp: set_system_calendar_def seq_def write_system_value_def
      split: sum.splits option.splits)

lemma set_user_calendar_form:
  "set_user_calendar c user p =
     (case require_calendar c of
        Inl e \<Rightarrow> (p, Inl e)
      | Inr selected \<Rightarrow>
          (case write_user_value selected user p of
             (p', Inl e) \<Rightarrow> (p', Inl e)
           | (p', Inr _) \<Rightarrow> (p', Inr (resolve_calendar user p'))))"
  by (auto simp: set_user_calendar_def seq_def split: sum.splits prod.splits)

lemma write_user_value_form:
  "write_user_value calendar user p =
     (case resolved_user user p of
        None \<Rightarrow> (p, Inl IdentityError)
      | Some u \<Rightarrow>
          (case frappe p of
             Some h \<Rightarrow> (p\<lparr>frappe := Some (h\<lparr>defaults_user := (defaults_user h)(u \<mapsto> calendar)\<rparr>)\<rparr>, Inr ())
           | None \<Rightarrow> (p\<lparr>fallback_user := (fallback_user p)(u \<mapsto> calendar)\<rparr>, Inr ())))"
  by (auto simp: write_user_value_def resolved_user_def truthy_def Let_def
      split: option.splits)








section \<open>The claims about the preference helpers\<close>



text \<open>
  Claim C7, as the code has it. \<open>set_system_calendar\<close> succeeds exactly for the arguments
  whose trimmed, lowercased form is \<open>jalali\<close> or \<open>gregorian\<close>; for every other argument,
  \<open>None\<close> and the empty string among them, both setters fail with a validation error.
  \<open>set_user_calendar\<close> with such an argument succeeds when a user identity is resolved and
  fails with an identity error otherwise. \<open>set_calendar_preference\<close> fails with a validation
  error for every non-empty scope whose trimmed, lowercased form is neither \<open>system\<close> nor
  \<open>user\<close>; a missing or empty scope is the scope \<open>user\<close>.
\<close>

theorem calendar_validation_C7:
  "(acceptable_calendar c \<longrightarrow> (\<exists>sel. snd (set_system_calendar c p) = Inr sel))
   \<and> (\<not> acceptable_calendar c \<longrightarrow> snd (set_system_calendar c p) = Inl ValidationError)
   \<and> (\<not> acceptable_calendar c \<longrightarrow> snd (set_user_calendar c user p) = Inl ValidationError)
   \<and> (acceptable_calendar c \<and> resolved_user user p \<noteq> None \<longrightarrow>
        (\<exists>sel. snd (set_user_calendar c user p) = Inr sel))
   \<and> (acceptable_calendar c \<and> resolved_user user p = None \<longrightarrow>
        snd (set_user_calendar c user p) = Inl IdentityError)
   \<and> (truthy scope \<and> lower (strip (py_or scope [])) \<noteq> ''system''
        \<and> lower (strip (py_or scope [])) \<noteq> ''user'' \<longrightarrow>
        snd (set_calendar_preference scope c user p) = Inl ValidationError)
   \<and> (\<not> truthy scope \<longrightarrow>
        set_calendar_preference scope c user p = set_calendar_preference (Some ''user'') c user p)
   \<and> \<not> acceptable_calendar None \<and> \<not> acceptable_calendar (Some [])"
proof (intro conjI impI)
  assume "acceptable_calendar c"
  then show "\<exists>sel. snd (set_system_calendar c p) = Inr sel"
    by (simp add: set_system_calendar_form require_calendar_form)
next
  assume "\<not> acceptable_calendar c"
  then show "snd (set_system_calendar c p) = Inl ValidationError"
    by (simp add: set_system_calendar_form require_calendar_form)
next
  assume "\<not> acceptable_calendar c"
  then show "snd (set_user_calendar c user p) = Inl ValidationError"
    by (simp add: set_user_calendar_form require_calendar_form)
next
  assume "acceptable_calendar c \<and> resolved_user user p \<noteq> None"
  then show "\<exists>sel. snd (set_user_calendar c user p) = Inr sel"
    by (auto simp: set_user_calendar_form require_calendar_form write_user_value_form
        split: option.splits)
next
  assume "acceptable_calendar c \<and> resolved_user user p = None"
  then show "snd (set_user_calendar c user p) = Inl IdentityError"
    by (simp add: set_user_calendar_form require_calendar_form write_user_value_form)
next
  assume "truthy scope \<and> lower (strip (py_or scope [])) \<noteq> ''system''
        \<and> lower (strip (py_or scope [])) \<noteq> ''user''"
  then have "lower (strip (py_or scope ''user'')) \<noteq> ''system''"
    "lower (strip (py_or scope ''user'')) \<noteq> ''user''"
    by (auto simp: truthy_def py_or_def split: option.splits)
  then show "snd (set_calendar_preference scope c user p) = Inl ValidationError"
    by (simp add: set_calendar_preference_def raise_def)
next
  assume "\<not> truthy scope"
  then have "py_or scope ''user'' = py_or (Some ''user'') ''user''"
    by (auto simp: truthy_def py_or_def split: option.splits)
  then show "set_calendar_preference scope c user p
      = set_calendar_preference (Some ''user'') c user p"
    by (simp add: set_calendar_preference_def)
next
  show "\<not> acceptable_calendar None" by (simp add: acceptable_calendar_def)
  show "\<not> acceptable_calendar (Some [])" by code_simp
qed

theorem calendar_validation_C7_witness:
  "acceptable_calendar (Some '' Gregorian '')
   \<and> snd (set_system_calendar (Some '' Gregorian '') initial_store)
        = Inr \<lparr>sel_value = ''gregorian'', sel_source = ''system''\<rparr>
   \<and> snd (set_system_calendar (Some ''lunar'') initial_store) = Inl ValidationError
   \<and> snd (set_user_calendar (Some ''lunar'') (Some ''u'') initial_store) = Inl ValidationError
   \<and> snd (set_user_calendar (Some ''JALALI'') (Some ''u'') initial_store)
        = Inr \<lparr>sel_value = ''jalali'', sel_source = ''user''\<rparr>
   \<and> snd (set_user_calendar (Some ''JALALI'') None initial_store) = Inl IdentityError
   \<and> snd (set_calendar_preference (Some ''global'') (Some ''jalali'') (Some ''u'') initial_store)
        = Inl ValidationError
   \<and> set_calendar_preference None (Some ''jalali'') (Some ''u'') initial_store
        = set_calendar_preference (Some ''user'') (Some ''jalali'') (Some ''u'') initial_store"
proof -
  have a: "acceptable_calendar (Some '' Gregorian '')" "acceptable_calendar (Some ''JALALI'')"
    "\<not> acceptable_calendar (Some ''lunar'')"
    by code_simp+
  have r: "resolved_user (Some ''u'') initial_store \<noteq> None" "resolved_user None initial_store = None"
    by (simp_all add: resolved_user_def initial_store_def)
  have s: "truthy (Some ''global'') \<and> lower (strip (py_or (Some ''global'') [])) \<noteq> ''system''
        \<and> lower (strip (py_or (Some ''global'') [])) \<noteq> ''user''" "\<not> truthy None"
    by code_simp+
  have v1: "snd (set_system_calendar (Some '' Gregorian '') initial_store)
        = Inr \<lparr>sel_value = ''gregorian'', sel_source = ''system''\<rparr>"
    by code_simp
  have v2: "snd (set_user_calendar (Some ''JALALI'') (Some ''u'') initial_store)
        = Inr \<lparr>sel_value = ''jalali'', sel_source = ''user''\<rparr>"
    by code_simp
  have 1: "snd (set_system_calendar (Some ''lunar'') initial_store) = Inl ValidationError"
    "snd (set_user_calendar (Some ''lunar'') (Some ''u'') initial_store) = Inl ValidationError"
    using calendar_validation_C7[where c = "Some ''lunar''" and p = initial_store
        and user = "Some ''u''"] a(3)
    by simp_all
  have 2: "snd (set_user_calendar (Some ''JALALI'') None initial_store) = Inl IdentityError"
    using calendar_validation_C7[where c = "Some ''JALALI''" and p = initial_store and user = None]
      a(2) r(2)
    by simp
  have 3: "snd (set_calendar_preference (Some ''global'') (Some ''jalali'') (Some ''u'') initial_store)
        = Inl ValidationError"
    using calendar_validation_C7[where c = "Some ''jalali''" and p = initial_store
        and user = "Some ''u''" and scope = "Some ''global''"] s(1)
    by simp
  have 4: "set_calendar_preference None (Some ''jalali'') (Some ''u'') initial_store
        = set_calendar_preference (Some ''user'') (Some ''jalali'') (Some ''u'') initial_store"
    using calendar_validation_C7[where c = "Some ''jalali''" and p = initial_store
        and user = "Some ''u''" and scope = None] s(2)
    by simp
  show ?thesis using a(1) v1 1 v2 2 3 4 by simp
qed

text \<open>
  The empty scope: its trimmed, lowercased form is neither \<open>system\<close> nor \<open>user\<close>, and the
  call is carried out for the scope \<open>user\<close>.
\<close>

theorem empty_scope_C7_counterexample:
  "lower (strip []) \<noteq> ''system'' \<and> lower (strip []) \<noteq> ''user''
   \<and> snd (set_calendar_preference (Some []) (Some ''jalali'') (Some ''u'') initial_store)
        = Inr [(''active_calendar'', PStr ''jalali''), (''source'', PStr ''user''),
               (''is_jalali_enabled'', PBool True), (''user_calendar'', PStr ''jalali'')]"
  by code_simp

text \<open>
  Claim C10. Both setters validate before they write: when a call ends with an exception,
  the store it leaves is the store it was given, so the system slot and every user slot
  are as before. That is the case for a calendar argument that is not acceptable and, for
  \<open>set_user_calendar\<close>, when no user identity is resolved.
\<close>

theorem validate_before_write_C10:
  "(snd (set_system_calendar c p) = Inl e \<longrightarrow> fst (set_system_calendar c p) = p)
   \<and> (snd (set_user_calendar c user p) = Inl e \<longrightarrow>
        fst (set_user_calendar c user p) = p
        \<and> system_slot (fst (set_user_calendar c user p)) = system_slot p
        \<and> user_slot (fst (set_user_calendar c user p)) u = user_slot p u)
   \<and> (\<not> acceptable_calendar c \<longrightarrow>
        set_system_calendar c p = (p, Inl ValidationError)
        \<and> set_user_calendar c user p = (p, Inl ValidationError))
   \<and> (acceptable_calendar c \<and> resolved_user user p = None \<longrightarrow>
        set_user_calendar c user p = (p, Inl IdentityError))"
proof (intro conjI impI)
  assume "snd (set_system_calendar c p) = Inl e"
  then show "fst (set_system_calendar c p) = p"
    by (auto simp: set_system_calendar_form split: sum.splits)
next
  assume a: "snd (set_user_calendar c user p) = Inl e"
  then show f: "fst (set_user_calendar c user p) = p"
    by (auto simp: set_user_calendar_form write_user_value_form split: sum.splits option.splits)
  then show "system_slot (fst (set_user_calendar c user p)) = system_slot p"
    "user_slot (fst (set_user_calendar c user p)) u = user_slot p u"
    by simp_all
next
  assume "\<not> acceptable_calendar c"
  then show "set_system_calendar c p = (p, Inl ValidationError)"
    "set_user_calendar c user p = (p, Inl ValidationError)"
    by (simp_all add: set_system_calendar_form set_user_calendar_form require_calendar_form)
next
  assume "acceptable_calendar c \<and> resolved_user user p = None"
  then show "set_user_calendar c user p = (p, Inl IdentityError)"
    by (simp add: set_user_calendar_form require_calendar_form write_user_value_form)
qed

theorem validate_before_write_C10_witness:
  "set_system_calendar (Some ''lunar'') (fst (set_system_calendar (Some ''gregorian'') initial_store))
     = (fst (set_system_calendar (Some ''gregorian'') initial_store), Inl ValidationError)
   \<and> set_user_calendar (Some ''lunar'') (Some ''u'')
        (fst (set_system_calendar (Some ''gregorian'') initial_store))
     = (fst (set_system_calendar (Some ''gregorian'') initial_store), Inl ValidationError)
   \<and> set_user_calendar (Some ''jalali'') None
        (fst (set_system_calendar (Some ''gregorian'') initial_store))
     = (fst (set_system_calendar (Some ''gregorian'') initial_store), Inl IdentityError)
   \<and> fst (set_user_calendar (Some ''jalali'') None initial_store) = initial_store"
proof -
  let ?p = "fst (set_system_calendar (Some ''gregorian'') initial_store)"
  have a: "\<not> acceptable_calendar (Some ''lunar'')" "acceptable_calendar (Some ''jalali'')"
    by code_simp+
  have r: "resolved_user None ?p = None"
    by (simp add: set_system_calendar_form require_known write_system_value_def
        resolved_user_def initial_store_def)
  have e: "snd (set_user_calendar (Some ''jalali'') None initial_store) = Inl IdentityError"
    by code_simp
  show ?thesis
    using validate_before_write_C10[where c = "Some ''lunar''" and p = ?p and user = "Some ''u''"]
      validate_before_write_C10[where c = "Some ''jalali''" and p = ?p and user = None]
      validate_before_write_C10[where c = "Some ''jalali''" and p = initial_store and user = None
        and e = IdentityError]
      a r e
    by blast
qed

section \<open>Renderings and tokens\<close>

text \<open>
  \<open>format_digits\<close> writes digits only, after a \<open>-\<close> for a negative number; \<open>int\<close> reads a string
  of digits back to the number it denotes; \<open>split\<close> returns one token more than there are
  separators.
\<close>

lemma digit_char_props:
  assumes "k < 10"
  shows "is_digit (digit_char k)" "digit_val (digit_char k) = int k"
    "\<not> is_int_space (digit_char k)" "digit_char k \<noteq> CHR ''-''" "digit_char k \<noteq> CHR ''/''"
    "digit_char k \<noteq> CHR ''+''"
proof -
  have o: "of_char (digit_char k) = 48 + k"
    using assms by (simp add: digit_char_def)
  show "is_digit (digit_char k)" using assms by (simp add: is_digit_def o)
  show "digit_val (digit_char k) = int k" by (simp add: digit_val_def o)
  show "\<not> is_int_space (digit_char k)" using assms by (simp add: is_int_space_def o)
  have "of_char (digit_char k) \<noteq> (of_char CHR ''-'' :: nat)" using o by simp
  then show "digit_char k \<noteq> CHR ''-''" by auto
  have "of_char (digit_char k) \<noteq> (of_char CHR ''/'' :: nat)" using o by simp
  then show "digit_char k \<noteq> CHR ''/''" by auto
  have "of_char (digit_char k) \<noteq> (of_char CHR ''+'' :: nat)" using o by simp
  then show "digit_char k \<noteq> CHR ''+''" by auto
qed

lemma zero_char_props:
  "is_digit CHR ''0''" "digit_val CHR ''0'' = 0" "\<not> is_int_space CHR ''0''"
  by (simp_all add: is_digit_def digit_val_def is_int_space_def)

lemma digits_of_set: "c \<in> set (digits_of n) \<Longrightarrow> \<exists>k<10. c = digit_char k"
proof (induction n rule: digits_of.induct)
  case (1 n)
  show ?case
  proof (cases "n < 10")
    case True
    with "1.prems" show ?thesis by (subst (asm) digits_of.simps) auto
  next
    case False
    have "digits_of n = digits_of (n div 10) @ [digit_char (n mod 10)]"
      using False by (subst digits_of.simps) simp
    with "1.prems" have "c \<in> set (digits_of (n div 10)) \<or> c = digit_char (n mod 10)" by auto
    then show ?thesis
    proof
      assume "c \<in> set (digits_of (n div 10))"
      then show ?thesis using "1.IH"[OF False] by simp
    next
      assume "c = digit_char (n mod 10)"
      then show ?thesis by (intro exI[of _ "n mod 10"]) simp
    qed
  qed
qed

lemma digits_of_nonempty: "digits_of n \<noteq> []"
  by (subst digits_of.simps) simp

lemma digits_value_snoc: "digits_value (s @ [c]) = 10 * digits_value s + digit_val c"
  by (simp add: digits_value_def)

lemma digits_value_digits_of: "digits_value (digits_of n) = int n"
proof (induction n rule: digits_of.induct)
  case (1 n)
  show ?case
  proof (cases "n < 10")
    case True
    then show ?thesis
      by (subst digits_of.simps) (simp add: digits_value_def digit_char_props)
  next
    case False
    have "digits_of n = digits_of (n div 10) @ [digit_char (n mod 10)]"
      using False by (subst digits_of.simps) simp
    moreover have "int n = int (n div 10 * 10 + n mod 10)" by simp
    then have "int n = 10 * int (n div 10) + int (n mod 10)"
      by (simp only: of_nat_add of_nat_mult of_nat_numeral mult.commute)
    ultimately show ?thesis
      using "1.IH"[OF False] by (simp add: digits_value_snoc digit_char_props)
  qed
qed

lemma foldl_zeros: "foldl (\<lambda>a c. 10 * a + digit_val c) 0 (replicate k CHR ''0'') = 0"
  by (induction k) (simp_all add: zero_char_props)

lemma digits_value_zero_pad: "digits_value (zero_pad w s) = digits_value s"
  by (simp add: digits_value_def zero_pad_def foldl_zeros)

lemma parse_digits_all:
  assumes "\<forall>c \<in> set s. is_digit c" "s \<noteq> []"
  shows "parse_digits prev acc s = Some (foldl (\<lambda>a c. 10 * a + digit_val c) acc s)"
  using assms
proof (induction s arbitrary: prev acc)
  case Nil
  then show ?case by simp
next
  case (Cons c s)
  show ?case
  proof (cases "s = []")
    case True
    then show ?thesis using Cons.prems by simp
  next
    case False
    then show ?thesis using Cons by simp
  qed
qed

lemma int_strip_no_space:
  assumes "\<forall>c \<in> set s. \<not> is_int_space c"
  shows "int_strip s = s"
proof -
  have "dropWhile is_int_space s = s" using assms by (cases s) simp_all
  moreover have "dropWhile is_int_space (rev s) = rev s" using assms by (cases "rev s") auto
  ultimately show ?thesis by (simp add: int_strip_def)
qed

lemma is_digit_facts:
  assumes "is_digit c"
  shows "\<not> is_int_space c" "c \<noteq> CHR ''-''" "c \<noteq> CHR ''+''" "c \<noteq> CHR ''/''"
  using assms by (auto simp: is_digit_def is_int_space_def Let_def)

lemma py_int_digits:
  assumes "\<forall>c \<in> set s. is_digit c" "s \<noteq> []" "length s \<le> INT_MAX_STR_DIGITS"
  shows "py_int s = Inr (digits_value s)"
proof -
  have st: "int_strip s = s" using assms(1) is_digit_facts(1) by (intro int_strip_no_space) blast
  obtain c cs where s: "s = c # cs" using assms(2) by (cases s) auto
  have c: "c \<noteq> CHR ''-''" "c \<noteq> CHR ''+''" using assms(1) is_digit_facts s by auto
  have p: "parse_digits False 0 (c # cs) = Some (digits_value s)"
    using parse_digits_all[OF assms(1,2), of False 0] by (simp add: digits_value_def s)
  have "filter is_digit s = s" using assms(1) by (simp add: filter_id_conv)
  then have l: "\<not> length (filter is_digit (c # cs)) > INT_MAX_STR_DIGITS"
    using assms(3) by (simp add: s)
  have st': "int_strip (c # cs) = c # cs" using st by (simp add: s)
  show ?thesis
    unfolding py_int_def s st' using c p l by (simp add: Let_def s)
qed

lemma split_on_no_sep: "sep \<notin> set a \<Longrightarrow> split_on sep a = [a]"
  by (induction a) auto

lemma split_on_append: "sep \<notin> set a \<Longrightarrow> split_on sep (a @ sep # b) = a # split_on sep b"
  by (induction a) auto

lemma split_on_length: "length (split_on sep s) = Suc (length (filter (\<lambda>c. c = sep) s))"
  by (induction s) (auto split: list.splits)

lemma replace_slash_id: "CHR ''/'' \<notin> set s \<Longrightarrow> replace_slash s = s"
  by (induction s) (auto simp: replace_slash_def)

lemma replace_slash_append: "replace_slash (a @ b) = replace_slash a @ replace_slash b"
  by (simp add: replace_slash_def)

lemma replace_slash_idem: "replace_slash (replace_slash s) = replace_slash s"
  by (simp add: replace_slash_def)

lemma coerce_tokens_replace: "coerce_tokens (replace_slash s) = coerce_tokens s"
  by (simp add: coerce_tokens_def replace_slash_idem)

lemma zero_pad_digits:
  assumes "\<forall>c \<in> set s. is_digit c"
  shows "\<forall>c \<in> set (zero_pad w s). is_digit c"
  using assms by (auto simp: zero_pad_def zero_char_props)

lemma digits_of_digits: "\<forall>c \<in> set (digits_of n). is_digit c"
  using digits_of_set digit_char_props(1) by blast

lemma format_digits_nonneg:
  assumes "0 \<le> n"
  shows "\<forall>c \<in> set (format_digits w n). is_digit c" "format_digits w n \<noteq> []"
    "digits_value (format_digits w n) = n"
proof -
  have f: "format_digits w n = zero_pad w (digits_of (nat n))" using assms by (simp add: format_digits_def)
  show "\<forall>c \<in> set (format_digits w n). is_digit c"
    unfolding f by (rule zero_pad_digits[OF digits_of_digits])
  show "format_digits w n \<noteq> []" unfolding f by (simp add: zero_pad_def digits_of_nonempty)
  show "digits_value (format_digits w n) = n"
    unfolding f using assms by (simp add: digits_value_zero_pad digits_value_digits_of)
qed

lemma format_digits_neg:
  assumes "n < 0"
  shows "\<exists>s. format_digits w n = CHR ''-'' # s \<and> (\<forall>c \<in> set s. is_digit c)"
  using assms zero_pad_digits[OF digits_of_digits]
  by (auto simp: format_digits_def)

lemma format_digits_no_slash: "CHR ''/'' \<notin> set (format_digits w n)"
proof (cases "0 \<le> n")
  case True
  then show ?thesis using format_digits_nonneg(1)[of n w] is_digit_facts(4) by blast
next
  case False
  then obtain s where "format_digits w n = CHR ''-'' # s" "\<forall>c \<in> set s. is_digit c"
    using format_digits_neg[of n w] by auto
  then show ?thesis using is_digit_facts(4) by auto
qed

lemma format_digits_dashes:
  "length (filter (\<lambda>c. c = CHR ''-'') (format_digits w n)) = (if n < 0 then 1 else 0)"
proof (cases "0 \<le> n")
  case True
  then have "\<forall>c \<in> set (format_digits w n). c \<noteq> CHR ''-''"
    using format_digits_nonneg(1)[of n w] is_digit_facts(2) by blast
  then have "filter (\<lambda>c. c = CHR ''-'') (format_digits w n) = []" by (simp add: filter_empty_conv)
  then show ?thesis using True by simp
next
  case False
  then obtain s where s: "format_digits w n = CHR ''-'' # s" "\<forall>c \<in> set s. is_digit c"
    using format_digits_neg[of n w] by auto
  then have "\<forall>c \<in> set s. c \<noteq> CHR ''-''" using is_digit_facts(2) by blast
  then have "filter (\<lambda>c. c = CHR ''-'') s = []" by (simp add: filter_empty_conv)
  then show ?thesis using False s(1) by simp
qed

lemma replace_slash_format_digits: "replace_slash (format_digits w n) = format_digits w n"
  by (rule replace_slash_id[OF format_digits_no_slash])

lemma replace_slash_sep: "replace_slash ''/'' = ''-''" "replace_slash ''-'' = ''-''"
  by (simp_all add: replace_slash_def)

lemma length_zero_pad: "length (zero_pad w s) = max w (length s)"
  by (simp add: zero_pad_def max_def)

lemma digits_of_length: "1 \<le> k \<Longrightarrow> length (digits_of n) \<le> k \<longleftrightarrow> n < 10 ^ k"
proof (induction n arbitrary: k rule: digits_of.induct)
  case (1 n)
  show ?case
  proof (cases "n < 10")
    case True
    have "(10::nat) ^ 1 \<le> 10 ^ k" using "1.prems" by (intro power_increasing) simp_all
    then have "n < 10 ^ k" using True by simp
    moreover have "digits_of n = [digit_char n]" using True by (subst digits_of.simps) simp
    ultimately show ?thesis using "1.prems" by simp
  next
    case False
    have d: "digits_of n = digits_of (n div 10) @ [digit_char (n mod 10)]"
      using False by (subst digits_of.simps) simp
    show ?thesis
    proof (cases "k = 1")
      case True
      have "digits_of (n div 10) \<noteq> []" by (rule digits_of_nonempty)
      then have "\<not> length (digits_of n) \<le> 1" unfolding d by (cases "digits_of (n div 10)") auto
      then show ?thesis using True False by simp
    next
      case k: False
      then obtain k' where k': "k = Suc k'" "1 \<le> k'" using "1.prems" by (cases k) auto
      have "length (digits_of n) \<le> k \<longleftrightarrow> length (digits_of (n div 10)) \<le> k'"
        unfolding d k' by simp
      also have "\<dots> \<longleftrightarrow> n div 10 < 10 ^ k'" by (rule "1.IH"[OF False k'(2)])
      also have "\<dots> \<longleftrightarrow> n < 10 ^ k" unfolding k' by (simp add: div_less_iff_less_mult mult.commute)
      finally show ?thesis .
    qed
  qed
qed

lemma nat_abs_limit: "nat \<bar>n\<bar> < 10 ^ k \<longleftrightarrow> \<bar>n\<bar> < 10 ^ k"
proof -
  have "nat \<bar>n\<bar> < 10 ^ k \<longleftrightarrow> int (nat \<bar>n\<bar>) < int (10 ^ k)" by (simp only: of_nat_less_iff)
  then show ?thesis by simp
qed

lemma limit_pos: "1 \<le> INT_MAX_STR_DIGITS"
  by (simp add: INT_MAX_STR_DIGITS_def)

lemma digits_in_limit:
  "length (digits_of (nat \<bar>n\<bar>)) \<le> INT_MAX_STR_DIGITS \<longleftrightarrow> \<bar>n\<bar> < 10 ^ INT_MAX_STR_DIGITS"
  by (simp only: digits_of_length[OF limit_pos] nat_abs_limit)

lemma format_d_in_limit:
  assumes "\<bar>n\<bar> < 10 ^ INT_MAX_STR_DIGITS"
  shows "format_d w n = Inr (format_digits w n)"
  using assms digits_in_limit[of n] by (simp add: format_d_def)

lemma format_d_beyond_limit:
  assumes "\<not> \<bar>n\<bar> < 10 ^ INT_MAX_STR_DIGITS"
  shows "format_d w n = Inl DigitLimitError"
  using assms digits_in_limit[of n] by (simp add: format_d_def)

lemma format_digits_length:
  assumes "0 \<le> n" "n < 10 ^ INT_MAX_STR_DIGITS" "w \<le> INT_MAX_STR_DIGITS"
  shows "length (format_digits w n) \<le> INT_MAX_STR_DIGITS"
proof -
  have "\<bar>n\<bar> < 10 ^ INT_MAX_STR_DIGITS" using assms(1,2) by simp
  then have "length (digits_of (nat \<bar>n\<bar>)) \<le> INT_MAX_STR_DIGITS"
    by (simp only: digits_in_limit)
  moreover have "nat \<bar>n\<bar> = nat n" using assms(1) by simp
  ultimately show ?thesis using assms(1,3) by (simp add: format_digits_def length_zero_pad)
qed

lemma isoformat_in_limit:
  assumes "\<bar>year j\<bar> < 10 ^ INT_MAX_STR_DIGITS" "\<bar>month j\<bar> < 10 ^ INT_MAX_STR_DIGITS"
    "\<bar>day j\<bar> < 10 ^ INT_MAX_STR_DIGITS"
  shows "isoformat j sep
    = Inr (format_digits 4 (year j) @ sep @ format_digits 2 (month j) @ sep @ format_digits 2 (day j))"
  by (simp add: isoformat_def format_d_in_limit assms)

lemma isoformat_beyond_limit:
  assumes "\<not> (\<bar>year j\<bar> < 10 ^ INT_MAX_STR_DIGITS \<and> \<bar>month j\<bar> < 10 ^ INT_MAX_STR_DIGITS
    \<and> \<bar>day j\<bar> < 10 ^ INT_MAX_STR_DIGITS)"
  shows "isoformat j sep = Inl DigitLimitError"
proof (cases "\<bar>year j\<bar> < 10 ^ INT_MAX_STR_DIGITS")
  case False
  then show ?thesis by (simp add: isoformat_def format_d_beyond_limit)
next
  case y: True
  show ?thesis
  proof (cases "\<bar>month j\<bar> < 10 ^ INT_MAX_STR_DIGITS")
    case False
    then show ?thesis using y by (simp add: isoformat_def format_d_beyond_limit format_d_in_limit)
  next
    case True
    with y assms have "\<not> \<bar>day j\<bar> < 10 ^ INT_MAX_STR_DIGITS" by simp
    then show ?thesis
      using y True by (simp add: isoformat_def format_d_beyond_limit format_d_in_limit)
  qed
qed

lemma rendering_slash:
  "replace_slash (format_digits 4 y @ ''/'' @ format_digits 2 m @ ''/'' @ format_digits 2 d)
     = format_digits 4 y @ ''-'' @ format_digits 2 m @ ''-'' @ format_digits 2 d"
  by (simp only: replace_slash_append replace_slash_format_digits replace_slash_sep)

lemma rendering_dash:
  "replace_slash (format_digits 4 y @ ''-'' @ format_digits 2 m @ ''-'' @ format_digits 2 d)
     = format_digits 4 y @ ''-'' @ format_digits 2 m @ ''-'' @ format_digits 2 d"
  by (simp only: replace_slash_append replace_slash_format_digits replace_slash_sep)

lemma coerce_tokens_rendering_same:
  "coerce_tokens (format_digits 4 y @ ''/'' @ format_digits 2 m @ ''/'' @ format_digits 2 d)
     = coerce_tokens (format_digits 4 y @ ''-'' @ format_digits 2 m @ ''-'' @ format_digits 2 d)"
  unfolding coerce_tokens_def rendering_slash rendering_dash ..

lemma small_widths: "4 \<le> INT_MAX_STR_DIGITS" "2 \<le> INT_MAX_STR_DIGITS"
  by (simp_all add: INT_MAX_STR_DIGITS_def)

lemma coerce_tokens_rendering_nonneg:
  assumes "0 \<le> y" "0 \<le> m" "0 \<le> d"
    and "y < 10 ^ INT_MAX_STR_DIGITS" "m < 10 ^ INT_MAX_STR_DIGITS" "d < 10 ^ INT_MAX_STR_DIGITS"
  shows "coerce_tokens (format_digits 4 y @ ''-'' @ format_digits 2 m @ ''-'' @ format_digits 2 d)
           = Inr (y, m, d)"
proof -
  let ?a = "format_digits 4 y" and ?b = "format_digits 2 m" and ?c = "format_digits 2 d"
  note a = format_digits_nonneg[OF assms(1), of 4]
  note b = format_digits_nonneg[OF assms(2), of 2]
  note c = format_digits_nonneg[OF assms(3), of 2]
  have la: "length ?a \<le> INT_MAX_STR_DIGITS"
    by (rule format_digits_length[OF assms(1,4) small_widths(1)])
  have lb: "length ?b \<le> INT_MAX_STR_DIGITS"
    by (rule format_digits_length[OF assms(2,5) small_widths(2)])
  have lc: "length ?c \<le> INT_MAX_STR_DIGITS"
    by (rule format_digits_length[OF assms(3,6) small_widths(2)])
  have pa: "py_int ?a = Inr y" using py_int_digits[OF a(1,2) la] a(3) by simp
  have pb: "py_int ?b = Inr m" using py_int_digits[OF b(1,2) lb] b(3) by simp
  have pc: "py_int ?c = Inr d" using py_int_digits[OF c(1,2) lc] c(3) by simp
  have nd: "CHR ''-'' \<notin> set ?a" "CHR ''-'' \<notin> set ?b" "CHR ''-'' \<notin> set ?c"
    using a(1) b(1) c(1) is_digit_facts(2) by blast+
  have "split_on CHR ''-'' (?a @ ''-'' @ ?b @ ''-'' @ ?c) = [?a, ?b, ?c]"
    using nd by (simp add: split_on_append split_on_no_sep)
  then show ?thesis
    unfolding coerce_tokens_def rendering_dash by (simp add: pa pb pc)
qed

lemma coerce_tokens_rendering_neg:
  assumes "y < 0 \<or> m < 0 \<or> d < 0"
  shows "coerce_tokens (format_digits 4 y @ ''-'' @ format_digits 2 m @ ''-'' @ format_digits 2 d)
           = Inl FormatError"
proof -
  have "length (split_on CHR ''-''
      (format_digits 4 y @ ''-'' @ format_digits 2 m @ ''-'' @ format_digits 2 d)) \<noteq> 3"
    using assms by (auto simp: split_on_length format_digits_dashes)
  then show ?thesis
    unfolding coerce_tokens_def rendering_dash by (auto split: list.splits)
qed

lemma coerce_tokens_count:
  assumes "length (split_on CHR ''-'' (replace_slash s)) \<noteq> 3"
  shows "coerce_tokens s = Inl FormatError"
  using assms by (auto simp: coerce_tokens_def split: list.splits)

section \<open>The claim about the normalizers\<close>

text \<open>
  Claim C5, as the code has it. A triple whose components have at most
  \<open>INT_MAX_STR_DIGITS\<close> digits has the renderings \<open>YYYY/MM/DD\<close> and \<open>YYYY-MM-DD\<close>
  (\<open>isoformat\<close> with the separator \<open>/\<close> or \<open>-\<close>), and the two normalize identically under
  both normalizers. When no component is negative the common result is the triple itself;
  a negative component is rendered with a leading \<open>-\<close>, which adds a token, and both
  renderings fail with a format error. A triple with a longer component has no rendering.
  Every string that does not split into exactly three tokens fails with a format error.
\<close>

theorem normalizers_C5:
  "(\<bar>y\<bar> < 10 ^ INT_MAX_STR_DIGITS \<and> \<bar>m\<bar> < 10 ^ INT_MAX_STR_DIGITS
      \<and> \<bar>d\<bar> < 10 ^ INT_MAX_STR_DIGITS \<longrightarrow>
      (\<exists>a b. isoformat \<lparr>year = y, month = m, day = d\<rparr> ''/'' = Inr a
         \<and> isoformat \<lparr>year = y, month = m, day = d\<rparr> ''-'' = Inr b
         \<and> coerce_gregorian (GStr a) = coerce_gregorian (GStr b)
         \<and> coerce_jalali (JStr a) = coerce_jalali (JStr b)
         \<and> (0 \<le> y \<and> 0 \<le> m \<and> 0 \<le> d \<longrightarrow>
              coerce_gregorian (GStr a) = Inr (y, m, d) \<and> coerce_jalali (JStr a) = Inr (y, m, d))
         \<and> (y < 0 \<or> m < 0 \<or> d < 0 \<longrightarrow>
              coerce_gregorian (GStr a) = Inl FormatError
              \<and> coerce_jalali (JStr a) = Inl FormatError)))
   \<and> (\<not> (\<bar>y\<bar> < 10 ^ INT_MAX_STR_DIGITS \<and> \<bar>m\<bar> < 10 ^ INT_MAX_STR_DIGITS
          \<and> \<bar>d\<bar> < 10 ^ INT_MAX_STR_DIGITS) \<longrightarrow>
        isoformat \<lparr>year = y, month = m, day = d\<rparr> sep = Inl DigitLimitError)
   \<and> (length (split_on CHR ''-'' (replace_slash s)) \<noteq> 3 \<longrightarrow>
        coerce_gregorian (GStr s) = Inl FormatError \<and> coerce_jalali (JStr s) = Inl FormatError)"
proof (intro conjI impI)
  let ?j = "\<lparr>year = y, month = m, day = d\<rparr>"
  let ?a = "format_digits 4 y @ ''/'' @ format_digits 2 m @ ''/'' @ format_digits 2 d"
  let ?b = "format_digits 4 y @ ''-'' @ format_digits 2 m @ ''-'' @ format_digits 2 d"
  assume l: "\<bar>y\<bar> < 10 ^ INT_MAX_STR_DIGITS \<and> \<bar>m\<bar> < 10 ^ INT_MAX_STR_DIGITS
      \<and> \<bar>d\<bar> < 10 ^ INT_MAX_STR_DIGITS"
  have ia: "isoformat ?j ''/'' = Inr ?a" and ib: "isoformat ?j ''-'' = Inr ?b"
    using l by (simp_all add: isoformat_in_limit)
  have same: "coerce_tokens ?a = coerce_tokens ?b" by (rule coerce_tokens_rendering_same)
  have pos: "coerce_tokens ?a = Inr (y, m, d)" if "0 \<le> y \<and> 0 \<le> m \<and> 0 \<le> d"
    unfolding same using that l by (intro coerce_tokens_rendering_nonneg) simp_all
  have neg: "coerce_tokens ?a = Inl FormatError" if "y < 0 \<or> m < 0 \<or> d < 0"
    unfolding same using that by (rule coerce_tokens_rendering_neg)
  show "\<exists>a b. isoformat ?j ''/'' = Inr a \<and> isoformat ?j ''-'' = Inr b
         \<and> coerce_gregorian (GStr a) = coerce_gregorian (GStr b)
         \<and> coerce_jalali (JStr a) = coerce_jalali (JStr b)
         \<and> (0 \<le> y \<and> 0 \<le> m \<and> 0 \<le> d \<longrightarrow>
              coerce_gregorian (GStr a) = Inr (y, m, d) \<and> coerce_jalali (JStr a) = Inr (y, m, d))
         \<and> (y < 0 \<or> m < 0 \<or> d < 0 \<longrightarrow>
              coerce_gregorian (GStr a) = Inl FormatError
              \<and> coerce_jalali (JStr a) = Inl FormatError)"
    apply (rule exI[of _ ?a], rule exI[of _ ?b])
    using ia ib same pos neg by simp
next
  assume "\<not> (\<bar>y\<bar> < 10 ^ INT_MAX_STR_DIGITS \<and> \<bar>m\<bar> < 10 ^ INT_MAX_STR_DIGITS
          \<and> \<bar>d\<bar> < 10 ^ INT_MAX_STR_DIGITS)"
  then show "isoformat \<lparr>year = y, month = m, day = d\<rparr> sep = Inl DigitLimitError"
    by (intro isoformat_beyond_limit) simp
next
  assume "length (split_on CHR ''-'' (replace_slash s)) \<noteq> 3"
  then have "coerce_tokens s = Inl FormatError" by (rule coerce_tokens_count)
  then show "coerce_gregorian (GStr s) = Inl FormatError" "coerce_jalali (JStr s) = Inl FormatError"
    by simp_all
qed

theorem normalizers_C5_witness:
  "isoformat \<lparr>year = 2024, month = 3, day = 20\<rparr> ''/'' = Inr ''2024/03/20''
   \<and> isoformat \<lparr>year = 2024, month = 3, day = 20\<rparr> ''-'' = Inr ''2024-03-20''
   \<and> coerce_gregorian (GStr ''2024/03/20'') = Inr (2024, 3, 20)
   \<and> coerce_gregorian (GStr ''2024-03-20'') = Inr (2024, 3, 20)
   \<and> coerce_jalali (JStr ''2024/03/20'') = Inr (2024, 3, 20)
   \<and> coerce_jalali (JStr ''2024-03-20'') = Inr (2024, 3, 20)
   \<and> isoformat \<lparr>year = 1403, month = -1, day = 1\<rparr> ''/'' = Inr ''1403/-1/01''
   \<and> coerce_jalali (JStr ''1403/-1/01'') = Inl FormatError
   \<and> length (split_on CHR ''-'' (replace_slash ''2024-03'')) = 2
   \<and> coerce_gregorian (GStr ''2024-03'') = Inl FormatError
   \<and> coerce_jalali (JStr ''2024-03'') = Inl FormatError"
proof -
  have lim: "\<bar>n\<bar> < 10 ^ INT_MAX_STR_DIGITS" if "length (digits_of (nat \<bar>n\<bar>)) \<le> INT_MAX_STR_DIGITS"
    for n :: int
    using that by (simp only: digits_in_limit)
  have h: "\<bar>2024::int\<bar> < 10 ^ INT_MAX_STR_DIGITS" "\<bar>3::int\<bar> < 10 ^ INT_MAX_STR_DIGITS"
    "\<bar>20::int\<bar> < 10 ^ INT_MAX_STR_DIGITS" "\<bar>1403::int\<bar> < 10 ^ INT_MAX_STR_DIGITS"
    "\<bar>-1::int\<bar> < 10 ^ INT_MAX_STR_DIGITS" "\<bar>1::int\<bar> < 10 ^ INT_MAX_STR_DIGITS"
    by (rule lim, code_simp)+
  have i: "isoformat \<lparr>year = 2024, month = 3, day = 20\<rparr> ''/'' = Inr ''2024/03/20''"
    "isoformat \<lparr>year = 2024, month = 3, day = 20\<rparr> ''-'' = Inr ''2024-03-20''"
    "isoformat \<lparr>year = 1403, month = -1, day = 1\<rparr> ''/'' = Inr ''1403/-1/01''"
    by code_simp+
  have l: "length (split_on CHR ''-'' (replace_slash ''2024-03'')) = 2" by code_simp
  have p: "(0::int) \<le> 2024 \<and> (0::int) \<le> 3 \<and> (0::int) \<le> 20" by simp
  from normalizers_C5[where y = 2024 and m = 3 and d = 20] h(1,2,3) p
  obtain a b where ab:
    "isoformat \<lparr>year = 2024, month = 3, day = 20\<rparr> ''/'' = Inr a"
    "isoformat \<lparr>year = 2024, month = 3, day = 20\<rparr> ''-'' = Inr b"
    "coerce_gregorian (GStr a) = coerce_gregorian (GStr b)"
    "coerce_jalali (JStr a) = coerce_jalali (JStr b)"
    "coerce_gregorian (GStr a) = Inr (2024, 3, 20)" "coerce_jalali (JStr a) = Inr (2024, 3, 20)"
    by blast
  have a: "a = ''2024/03/20''" and b: "b = ''2024-03-20''" using ab(1,2) i(1,2) by simp_all
  have 1: "coerce_gregorian (GStr ''2024/03/20'') = Inr (2024, 3, 20)"
    "coerce_gregorian (GStr ''2024-03-20'') = Inr (2024, 3, 20)"
    "coerce_jalali (JStr ''2024/03/20'') = Inr (2024, 3, 20)"
    "coerce_jalali (JStr ''2024-03-20'') = Inr (2024, 3, 20)"
    using ab(3,4,5,6) unfolding a b by simp_all
  have 2: "coerce_gregorian (GStr ''2024-03'') = Inl FormatError"
    "coerce_jalali (JStr ''2024-03'') = Inl FormatError"
    using normalizers_C5[where s = "''2024-03''"] l by simp_all
  have n: "(1403::int) < 0 \<or> (-1::int) < 0 \<or> (1::int) < 0" by simp
  from normalizers_C5[where y = 1403 and m = "-1" and d = 1] h(4,5,6) n
  obtain a' where a': "isoformat \<lparr>year = 1403, month = -1, day = 1\<rparr> ''/'' = Inr a'"
    "coerce_jalali (JStr a') = Inl FormatError"
    by blast
  have 3: "coerce_jalali (JStr ''1403/-1/01'') = Inl FormatError"
    using a' i(3) by simp
  show ?thesis using i l 1 2 3 by simp
qed

text \<open>
  A negative year: \<open>JalaliDate(-5, 1, 1)\<close> is accepted, and neither of its renderings is read
  back as \<open>(-5, 1, 1)\<close>.
\<close>

theorem negative_year_C5_counterexample:
  "mk_JalaliDate (-5) 1 1 = Inr \<lparr>year = -5, month = 1, day = 1\<rparr>
   \<and> isoformat \<lparr>year = -5, month = 1, day = 1\<rparr> ''-'' = Inr ''-005-01-01''
   \<and> isoformat \<lparr>year = -5, month = 1, day = 1\<rparr> ''/'' = Inr ''-005/01/01''
   \<and> split_on CHR ''-'' (replace_slash ''-005/01/01'') = ['''', ''005'', ''01'', ''01'']
   \<and> coerce_jalali (JStr ''-005-01-01'') = Inl FormatError
   \<and> coerce_jalali (JStr ''-005/01/01'') = Inl FormatError
   \<and> coerce_gregorian (GStr ''-005-01-01'') = Inl FormatError
   \<and> coerce_gregorian (GStr ''-005/01/01'') = Inl FormatError"
  by code_simp

end
